theory Spec2Isabelle
  imports Main "HOL-Library.Sublist"
begin

section \<open>The chat client of 60days-rag: message store and stream reconciliation\<close>

text \<open>
  The development embeds two source files: the Zustand chat store
  (\<^verbatim>\<open>stores/chat-store\<close>, kept as \<^verbatim>\<open>src/unnamed/part_001\<close>) and the function
  \<^verbatim>\<open>handleSend\<close> of \<^verbatim>\<open>src/client/app/page.tsx\<close>, which consumes the chunks of one
  streamed answer and writes them into the last message of the store.

  JavaScript strings are modelled as \<^typ>\<open>string\<close>; an optional property is an
  \<^typ>\<open>'a option\<close> with \<^const>\<open>None\<close> for \<^verbatim>\<open>undefined\<close>.
\<close>

subsection \<open>Data\<close>

text \<open>
  Modelled from the spec: the declarations of \<^verbatim>\<open>ChatMessage\<close> and of the streamed chunk
  type live in \<^verbatim>\<open>@/lib/api/qwen\<close>, which is not among the sources. The fields below are the
  ones \<^verbatim>\<open>page.tsx\<close> builds or reads (object literals at lines 62-78, property accesses at
  lines 99-138), with the roles of section 3 of the specification. The user message is
  built without a \<^verbatim>\<open>thinking\<close> property, hence the option.
\<close>

datatype role = user | assistant

record message =
  msg_id :: string
  role :: role
  content :: string
  thinking :: "string option"
  timestamp :: nat

record stream_chunk =
  type :: "string option"
  thinking_content :: "string option"
  chunk :: "string option"
  done_flag :: "bool option"

text \<open>
  \<^verbatim>\<open>Partial<ChatMessage>\<close> as \<^verbatim>\<open>handleSend\<close> uses it: only \<^verbatim>\<open>content\<close> and
  \<^verbatim>\<open>thinking\<close> are ever passed to \<^verbatim>\<open>updateLastMessage\<close>.
\<close>

record updates =
  u_content :: "string option"
  u_thinking :: "string option"

text \<open>
  The part of \<^verbatim>\<open>ChatState\<close> that the message actions touch. \<^verbatim>\<open>settings\<close> is left
  to the extension part of the record: no action modelled here reads or writes it.
\<close>

record chat_state =
  messages :: "message list"
  isStreaming :: bool
  error :: "string option"
  currentThinking :: string
  currentContent :: string

text \<open>What a \<^verbatim>\<open>throw\<close> carries: an \<^verbatim>\<open>Error\<close> object with its message, or any other value.\<close>

datatype thrown = Error string | NonError

subsection \<open>The store actions (chat-store, lines 53-87)\<close>

definition initial_state :: chat_state where
  "initial_state =
     \<lparr>messages = [], isStreaming = False, error = None,
      currentThinking = [], currentContent = []\<rparr>"

definition addMessage :: "message \<Rightarrow> chat_state \<Rightarrow> chat_state" where
  "addMessage m state = state\<lparr>messages := messages state @ [m]\<rparr>"

text \<open>The object spread \<^verbatim>\<open>{...messages[lastIndex], ...updates}\<close>.\<close>

definition spread :: "message \<Rightarrow> updates \<Rightarrow> message" where
  "spread m upd =
     m\<lparr>content := (case u_content upd of None \<Rightarrow> content m | Some c \<Rightarrow> c),
       thinking := (case u_thinking upd of None \<Rightarrow> thinking m | Some t \<Rightarrow> Some t)\<rparr>"

text \<open>
  \<^verbatim>\<open>updateLastMessage\<close> copies the array, and assigns the merged record at
  \<^verbatim>\<open>lastIndex\<close> only under the guard \<^verbatim>\<open>lastIndex >= 0\<close>. The guard has no
  \<^verbatim>\<open>else\<close> and the action has no \<^verbatim>\<open>throw\<close>: with an empty array the copy is stored
  back and the call returns. The result type keeps the two outcomes a call can have apart,
  \<^const>\<open>Inl\<close> being an exception that reaches the caller.
\<close>

definition updateLastMessage :: "updates \<Rightarrow> chat_state \<Rightarrow> thrown + chat_state" where
  "updateLastMessage upd state =
     (let msgs = messages state;
          lastIndex = int (length msgs) - 1
      in if lastIndex \<ge> 0
         then Inr (state\<lparr>messages := msgs[nat lastIndex := spread (msgs ! nat lastIndex) upd]\<rparr>)
         else Inr (state\<lparr>messages := msgs\<rparr>))"

definition clearMessages :: "chat_state \<Rightarrow> chat_state" where
  "clearMessages state =
     state\<lparr>messages := [], currentThinking := [], currentContent := [], error := None\<rparr>"

definition setStreaming :: "bool \<Rightarrow> chat_state \<Rightarrow> chat_state" where
  "setStreaming streaming state = state\<lparr>isStreaming := streaming\<rparr>"

definition setError :: "string option \<Rightarrow> chat_state \<Rightarrow> chat_state" where
  "setError e state = state\<lparr>error := e\<rparr>"

subsection \<open>Sentence segmentation (page.tsx, lines 105-107)\<close>

text \<open>
  \<^verbatim>\<open>fullThinking.match(/[^.!?]+[.!?]+/g)\<close>. A match starts at the first position where a
  non-empty run of characters other than \<^verbatim>\<open>.\<close>, \<^verbatim>\<open>!\<close>, \<^verbatim>\<open>?\<close> is followed by a
  non-empty run of these three; both runs are greedy, and as the two classes are
  complementary no backtracking changes them. After a match the scan resumes right behind
  it; where no match starts, it moves on by one character. The three characters are
  ASCII, so the segments are the same whether the text is read by bytes or by UTF-16 units.
\<close>

definition is_terminator :: "char \<Rightarrow> bool" where
  "is_terminator c \<longleftrightarrow> c = CHR ''.'' \<or> c = CHR ''!'' \<or> c = CHR ''?''"

function match_all :: "string \<Rightarrow> string list" where
  "match_all [] = []"
| "match_all (c # cs) =
     (let body = takeWhile (\<lambda>x. \<not> is_terminator x) (c # cs);
          rest = dropWhile (\<lambda>x. \<not> is_terminator x) (c # cs);
          marks = takeWhile is_terminator rest
      in if body = [] \<or> marks = [] then match_all cs
         else (body @ marks) # match_all (dropWhile is_terminator rest))"
  by pat_completeness auto
termination
proof (relation "measure length")
  fix c :: char and cs body rest marks :: string
  assume "rest = dropWhile (\<lambda>x. \<not> is_terminator x) (c # cs)"
    and "\<not> (body = [] \<or> marks = [])"
    and "body = takeWhile (\<lambda>x. \<not> is_terminator x) (c # cs)"
  have "length (dropWhile is_terminator rest) \<le> length rest"
    by (rule length_dropWhile_le)
  moreover have "length rest < length (c # cs)"
    using \<open>rest = _\<close> \<open>\<not> (body = [] \<or> marks = [])\<close> \<open>body = _\<close>
    by (cases "is_terminator c") (simp_all add: le_imp_less_Suc length_dropWhile_le)
  ultimately show "(dropWhile is_terminator rest, c # cs) \<in> measure length"
    by simp
qed simp_all

text \<open>\<^verbatim>\<open>match\<close> returns \<^verbatim>\<open>null\<close> when nothing matches; \<^verbatim>\<open>|| [fullThinking]\<close>.\<close>

definition sentences :: "string \<Rightarrow> string list" where
  "sentences fullThinking =
     (case match_all fullThinking of [] \<Rightarrow> [fullThinking] | m # ms \<Rightarrow> m # ms)"

subsection \<open>The state \<open>handleSend\<close> works on\<close>

text \<open>
  The store, the two \<^verbatim>\<open>useState\<close> flags of the page (lines 44-45) and the two local
  accumulators of \<^verbatim>\<open>handleSend\<close> (lines 87-88).
\<close>

record turn =
  store :: chat_state
  isThinkingStreaming :: bool
  isContentStreaming :: bool
  accumulatedThinking :: string
  accumulatedContent :: string

text \<open>
  The statements \<^verbatim>\<open>handleSend\<close> executes: calls of store actions, calls of the two
  state setters, assignments to the two accumulators, and the pacing delay
  \<^verbatim>\<open>await new Promise((resolve) => setTimeout(resolve, 50))\<close>. The calls of
  \<^verbatim>\<open>console\<close> are left out.
\<close>

datatype action =
    AddMessage message
  | UpdateLastMessage updates
  | SetStreaming bool
  | SetError "string option"
  | SetIsThinkingStreaming bool
  | SetIsContentStreaming bool
  | Assign_accumulatedThinking string
  | Assign_accumulatedContent string
  | Delay nat

fun call :: "action \<Rightarrow> turn \<Rightarrow> thrown + turn" where
  "call (AddMessage m) t = Inr (t\<lparr>store := addMessage m (store t)\<rparr>)"
| "call (UpdateLastMessage upd) t =
     (case updateLastMessage upd (store t) of
        Inl e \<Rightarrow> Inl e
      | Inr s \<Rightarrow> Inr (t\<lparr>store := s\<rparr>))"
| "call (SetStreaming b) t = Inr (t\<lparr>store := setStreaming b (store t)\<rparr>)"
| "call (SetError e) t = Inr (t\<lparr>store := setError e (store t)\<rparr>)"
| "call (SetIsThinkingStreaming b) t = Inr (t\<lparr>isThinkingStreaming := b\<rparr>)"
| "call (SetIsContentStreaming b) t = Inr (t\<lparr>isContentStreaming := b\<rparr>)"
| "call (Assign_accumulatedThinking s) t = Inr (t\<lparr>accumulatedThinking := s\<rparr>)"
| "call (Assign_accumulatedContent s) t = Inr (t\<lparr>accumulatedContent := s\<rparr>)"
| "call (Delay ms) t = Inr t"

text \<open>
  Running statements in sequence gives the executed statements, each with the state it
  leaves, and the exception that cut the sequence short, if any.
\<close>

type_synonym trace = "(action \<times> turn) list"

fun run :: "action list \<Rightarrow> turn \<Rightarrow> trace \<times> thrown option" where
  "run [] t = ([], None)"
| "run (a # as) t =
     (case call a t of
        Inl e \<Rightarrow> ([], Some e)
      | Inr t' \<Rightarrow> (case run as t' of (tr, r) \<Rightarrow> ((a, t') # tr, r)))"

definition state_after :: "turn \<Rightarrow> trace \<Rightarrow> turn" where
  "state_after t tr = last (t # map snd tr)"

subsection \<open>The body of the \<open>for await\<close> loop (page.tsx, lines 99-140)\<close>

text \<open>JavaScript truthiness of an optional string and of an optional boolean.\<close>

definition truthy :: "string option \<Rightarrow> bool" where
  "truthy s = (case s of None \<Rightarrow> False | Some x \<Rightarrow> x \<noteq> [])"

definition truthy_flag :: "bool option \<Rightarrow> bool" where
  "truthy_flag b = (case b of None \<Rightarrow> False | Some x \<Rightarrow> x)"

text \<open>\<^verbatim>\<open>for (const sentence of sentences)\<close>, lines 110-116.\<close>

fun reveal :: "string \<Rightarrow> string list \<Rightarrow> action list" where
  "reveal currentText [] = []"
| "reveal currentText (sentence # rest) =
     (let currentText = currentText @ sentence
      in [Assign_accumulatedThinking currentText,
          UpdateLastMessage \<lparr>u_content = None, u_thinking = Some currentText\<rparr>,
          Delay 50]
         @ reveal currentText rest)"

text \<open>
  One iteration of the loop on the chunk received, given the values of the two
  accumulators: the statements of the branch taken, and whether it ends in
  \<^verbatim>\<open>break\<close>.
\<close>

definition handle_chunk :: "string \<Rightarrow> string \<Rightarrow> stream_chunk \<Rightarrow> action list \<times> bool" where
  "handle_chunk accThinking accContent c =
     (if type c = Some ''thinking'' \<and> truthy (thinking_content c) then
        (let fullThinking = the (thinking_content c)
         in ([SetIsThinkingStreaming True]
             @ reveal [] (sentences fullThinking)
             @ [Assign_accumulatedThinking fullThinking,
                UpdateLastMessage \<lparr>u_content = None, u_thinking = Some fullThinking\<rparr>],
             False))
      else if type c = Some ''content'' \<and> truthy (chunk c) then
        (let accContent = accContent @ the (chunk c)
         in ([SetIsThinkingStreaming False,
              SetIsContentStreaming True,
              Assign_accumulatedContent accContent,
              UpdateLastMessage \<lparr>u_content = Some accContent, u_thinking = None\<rparr>],
             False))
      else if type c = Some ''finish'' \<or> truthy_flag (done_flag c) then
        ([SetIsThinkingStreaming False,
          SetIsContentStreaming False,
          UpdateLastMessage \<lparr>u_content = Some accContent, u_thinking = Some accThinking\<rparr>],
         True)
      else if type c = Some ''error'' then
        ([SetError (Some (if truthy (chunk c) then the (chunk c) else ''Unknown error''))],
         True)
      else ([], False))"

text \<open>
  The loop over the chunks the stream delivers. It ends when the stream is exhausted, at a
  \<^verbatim>\<open>break\<close>, or at an exception.
\<close>

fun for_await :: "stream_chunk list \<Rightarrow> turn \<Rightarrow> trace \<times> thrown option" where
  "for_await [] t = ([], None)"
| "for_await (c # cs) t =
     (case handle_chunk (accumulatedThinking t) (accumulatedContent t) c of
        (acts, brk) \<Rightarrow>
          (case run acts t of
             (tr, Some e) \<Rightarrow> (tr, Some e)
           | (tr, None) \<Rightarrow>
               if brk then (tr, None)
               else (case for_await cs (state_after t tr) of
                       (tr', r) \<Rightarrow> (tr @ tr', r))))"

subsection \<open>\<open>handleSend\<close> (page.tsx, lines 60-152)\<close>

text \<open>The decimal digits of a number, for the template literals of lines 63 and 71.\<close>

fun digits :: "nat \<Rightarrow> string" where
  "digits n =
     (if n < 10 then [char_of (48 + n)]
      else digits (n div 10) @ [char_of (48 + n mod 10)])"

declare digits.simps [simp del]

text \<open>The four clock readings of lines 63, 66, 71 and 77.\<close>

record clock =
  userNow :: nat
  userDate :: nat
  assistantNow :: nat
  assistantDate :: nat

definition userMessage :: "clock \<Rightarrow> string \<Rightarrow> message" where
  "userMessage clk msg =
     \<lparr>msg_id = ''user-'' @ digits (userNow clk), role = user, content = msg,
      thinking = None, timestamp = userDate clk\<rparr>"

definition assistantMessage :: "clock \<Rightarrow> message" where
  "assistantMessage clk =
     \<lparr>msg_id = ''assistant-'' @ digits (assistantNow clk), role = assistant, content = [],
      thinking = Some [], timestamp = assistantDate clk\<rparr>"

text \<open>Lines 61-88: everything before the stream is opened.\<close>

definition turn_start :: "clock \<Rightarrow> string \<Rightarrow> action list" where
  "turn_start clk msg =
     [AddMessage (userMessage clk msg),
      AddMessage (assistantMessage clk),
      SetStreaming True,
      SetError None,
      SetIsThinkingStreaming False,
      SetIsContentStreaming False,
      Assign_accumulatedThinking [],
      Assign_accumulatedContent []]"

text \<open>The \<^verbatim>\<open>catch\<close> block, lines 142-146, and the \<^verbatim>\<open>finally\<close> block, lines 147-151.\<close>

definition catch_block :: "thrown \<Rightarrow> action list" where
  "catch_block e =
     [SetError (Some (case e of Error m \<Rightarrow> m | NonError \<Rightarrow> ''Failed to send message''))]"

definition finally_block :: "action list" where
  "finally_block =
     [SetStreaming False, SetIsThinkingStreaming False, SetIsContentStreaming False]"

text \<open>
  The whole function on the chunks that the stream delivers. An exception of the
  statements before \<^verbatim>\<open>try\<close> leaves the function at once; one of the loop is handled by
  \<^verbatim>\<open>catch\<close>; \<^verbatim>\<open>finally\<close> runs in both cases. The stream client \<^verbatim>\<open>streamChat\<close> is not
  among the sources: the list of chunks is what its iterator yields, and the error callback
  passed to it (lines 92-96), which only the client can call, is not part of the model.
\<close>

definition handleSend ::
  "clock \<Rightarrow> string \<Rightarrow> stream_chunk list \<Rightarrow> turn \<Rightarrow> trace \<times> thrown option" where
  "handleSend clk msg chunks t0 =
     (case run (turn_start clk msg) t0 of
        (tr0, Some e) \<Rightarrow> (tr0, Some e)
      | (tr0, None) \<Rightarrow>
          (let t1 = state_after t0 tr0 in
           case for_await chunks t1 of (tr1, r1) \<Rightarrow>
          (let t2 = state_after t1 tr1 in
           case (case r1 of None \<Rightarrow> ([], None) | Some e \<Rightarrow> run (catch_block e) t2) of (tr2, r2) \<Rightarrow>
          (let t3 = state_after t2 tr2 in
           case run finally_block t3 of (tr3, r3) \<Rightarrow>
             (tr0 @ tr1 @ tr2 @ tr3, case r3 of None \<Rightarrow> r2 | Some e \<Rightarrow> Some e)))))"

text \<open>The state in which \<^verbatim>\<open>handleSend\<close> leaves the page.\<close>

definition turn_end :: "clock \<Rightarrow> string \<Rightarrow> stream_chunk list \<Rightarrow> turn \<Rightarrow> turn" where
  "turn_end clk msg chunks t0 = state_after t0 (fst (handleSend clk msg chunks t0))"

section \<open>Auxiliary notions\<close>

text \<open>
  What a completed call of \<^const>\<open>updateLastMessage\<close> stores, the state a statement leaves
  when it completes, and the states passed through by a sequence of statements.
\<close>

definition merge_last :: "updates \<Rightarrow> chat_state \<Rightarrow> chat_state" where
  "merge_last upd s =
     s\<lparr>messages := (if messages s = [] then []
                     else butlast (messages s) @ [spread (last (messages s)) upd])\<rparr>"

fun effect :: "action \<Rightarrow> turn \<Rightarrow> turn" where
  "effect (AddMessage m) t = t\<lparr>store := addMessage m (store t)\<rparr>"
| "effect (UpdateLastMessage upd) t = t\<lparr>store := merge_last upd (store t)\<rparr>"
| "effect (SetStreaming b) t = t\<lparr>store := setStreaming b (store t)\<rparr>"
| "effect (SetError e) t = t\<lparr>store := setError e (store t)\<rparr>"
| "effect (SetIsThinkingStreaming b) t = t\<lparr>isThinkingStreaming := b\<rparr>"
| "effect (SetIsContentStreaming b) t = t\<lparr>isContentStreaming := b\<rparr>"
| "effect (Assign_accumulatedThinking s) t = t\<lparr>accumulatedThinking := s\<rparr>"
| "effect (Assign_accumulatedContent s) t = t\<lparr>accumulatedContent := s\<rparr>"
| "effect (Delay ms) t = t"

fun states :: "action list \<Rightarrow> turn \<Rightarrow> turn list" where
  "states [] t = []"
| "states (a # as) t = effect a t # states as (effect a t)"

definition exec :: "action list \<Rightarrow> turn \<Rightarrow> turn" where
  "exec acts t = foldl (\<lambda>s a. effect a s) t acts"

text \<open>
  What a reader of the store sees of the last message, \<^verbatim>\<open>messages[messages.length - 1]\<close>:
  nothing on an empty list; the \<^verbatim>\<open>thinking\<close> property may be absent.
\<close>

definition lastMessage :: "chat_state \<Rightarrow> message option" where
  "lastMessage s = (if messages s = [] then None else Some (last (messages s)))"

definition stored_content :: "turn \<Rightarrow> string option" where
  "stored_content t = map_option content (lastMessage (store t))"

definition stored_thinking :: "turn \<Rightarrow> string option" where
  "stored_thinking t = Option.bind (lastMessage (store t)) thinking"

text \<open>
  A content frame with fragment \<open>f\<close>, as the wire contract gives it (no \<^verbatim>\<open>done\<close> set), and
  the chunks that take the third branch of the loop body (lines 127-135).
\<close>

definition is_content_delta :: "stream_chunk \<Rightarrow> string \<Rightarrow> bool" where
  "is_content_delta c f \<longleftrightarrow>
     type c = Some ''content'' \<and> chunk c = Some f \<and> \<not> truthy_flag (done_flag c)"

text \<open>
  The fragments that a run of the loop appends to the content accumulator: those of the
  chunks that take the second branch, up to the first chunk that ends the loop.
\<close>

fun fragments :: "stream_chunk list \<Rightarrow> string list" where
  "fragments [] = []"
| "fragments (c # cs) =
     (if type c = Some ''thinking'' \<and> truthy (thinking_content c) then fragments cs
      else if type c = Some ''content'' \<and> truthy (chunk c) then the (chunk c) # fragments cs
      else if type c = Some ''finish'' \<or> truthy_flag (done_flag c) then []
      else if type c = Some ''error'' then []
      else fragments cs)"

definition is_finish :: "stream_chunk \<Rightarrow> bool" where
  "is_finish c \<longleftrightarrow>
     \<not> (type c = Some ''thinking'' \<and> truthy (thinking_content c)) \<and>
     \<not> (type c = Some ''content'' \<and> truthy (chunk c)) \<and>
     (type c = Some ''finish'' \<or> truthy_flag (done_flag c))"

text \<open>
  Sample inputs: the frames of the wire contract (section 6 of the specification). The
  thinking, content and finish frames carry the \<^verbatim>\<open>chunk\<close> and \<^verbatim>\<open>done\<close> fields that
  \<^verbatim>\<open>THINKING_MODE_FIX.md\<close> shows for them; the error frame is the one of the
  specification, \<^verbatim>\<open>{"type":"error","chunk":m}\<close>, without a \<^verbatim>\<open>done\<close> field. Then a
  clock, and the page before the first turn.
\<close>

definition thinking_event :: "string \<Rightarrow> stream_chunk" where
  "thinking_event T =
     \<lparr>type = Some ''thinking'', thinking_content = Some T, chunk = Some [],
      done_flag = Some False\<rparr>"

definition content_event :: "string \<Rightarrow> stream_chunk" where
  "content_event f =
     \<lparr>type = Some ''content'', thinking_content = None, chunk = Some f,
      done_flag = Some False\<rparr>"

definition finish_event :: stream_chunk where
  "finish_event =
     \<lparr>type = Some ''finish'', thinking_content = None, chunk = Some [],
      done_flag = Some True\<rparr>"

definition error_event :: "string \<Rightarrow> stream_chunk" where
  "error_event m =
     \<lparr>type = Some ''error'', thinking_content = None, chunk = Some m, done_flag = None\<rparr>"

definition clock0 :: clock where
  "clock0 = \<lparr>userNow = 1000, userDate = 1000, assistantNow = 1001, assistantDate = 1001\<rparr>"

definition initial_turn :: turn where
  "initial_turn =
     \<lparr>store = initial_state, isThinkingStreaming = False, isContentStreaming = False,
      accumulatedThinking = [], accumulatedContent = []\<rparr>"

text \<open>The texts written to the \<^verbatim>\<open>thinking\<close> field by a sequence of statements, in order.\<close>

fun thinking_writes :: "action list \<Rightarrow> string list" where
  "thinking_writes [] = []"
| "thinking_writes (UpdateLastMessage upd # as) =
     (case u_thinking upd of None \<Rightarrow> [] | Some s \<Rightarrow> [s]) @ thinking_writes as"
| "thinking_writes (a # as) = thinking_writes as"

text \<open>
  The states right after the calls of \<^verbatim>\<open>updateLastMessage\<close> in a trace; the chunks that
  take the first branch of the loop body; the two accumulators growing by extension.
\<close>

fun is_write :: "action \<Rightarrow> bool" where
  "is_write (UpdateLastMessage upd) = True"
| "is_write a = False"

definition write_states :: "trace \<Rightarrow> turn list" where
  "write_states tr = map snd (filter (\<lambda>(a, s). is_write a) tr)"

definition takes_thinking :: "stream_chunk \<Rightarrow> bool" where
  "takes_thinking c \<longleftrightarrow> type c = Some ''thinking'' \<and> truthy (thinking_content c)"

definition content_grows :: "turn \<Rightarrow> turn \<Rightarrow> bool" where
  "content_grows a b \<longleftrightarrow> prefix (accumulatedContent a) (accumulatedContent b)"

definition thinking_grows :: "turn \<Rightarrow> turn \<Rightarrow> bool" where
  "thinking_grows a b \<longleftrightarrow> prefix (accumulatedThinking a) (accumulatedThinking b)"

text \<open>
  The last message holds both accumulators; the state in which the loop over the chunks
  leaves the page.
\<close>

definition synced :: "turn \<Rightarrow> bool" where
  "synced t \<longleftrightarrow>
     stored_content t = Some (accumulatedContent t) \<and>
     stored_thinking t = Some (accumulatedThinking t)"

definition loop_end :: "stream_chunk list \<Rightarrow> turn \<Rightarrow> turn" where
  "loop_end cs t = state_after t (fst (for_await cs t))"

section \<open>Basic facts\<close>

subsection \<open>No statement of the model throws\<close>

lemma updateLastMessage_merge: "updateLastMessage upd s = Inr (merge_last upd s)"
proof (cases "messages s" rule: rev_cases)
  case Nil
  then show ?thesis by (simp add: updateLastMessage_def merge_last_def)
next
  case (snoc ms m)
  then show ?thesis
    by (simp add: updateLastMessage_def merge_last_def Let_def nat_diff_distrib nth_append)
qed

lemma call_effect: "call a t = Inr (effect a t)"
  by (cases a) (simp_all add: updateLastMessage_merge)

lemma run_zip: "run acts t = (zip acts (states acts t), None)"
  by (induction acts arbitrary: t) (simp_all add: call_effect)

lemma length_states: "length (states acts t) = length acts"
  by (induction acts arbitrary: t) simp_all

lemma exec_Nil: "exec [] t = t"
  by (simp add: exec_def)

lemma exec_Cons: "exec (a # as) t = exec as (effect a t)"
  by (simp add: exec_def)

lemma exec_append: "exec (as @ bs) t = exec bs (exec as t)"
  by (simp add: exec_def)

lemma states_append: "states (as @ bs) t = states as t @ states bs (exec as t)"
  by (induction as arbitrary: t) (simp_all add: exec_def)

lemma state_after_Nil: "state_after t [] = t"
  by (simp add: state_after_def)

lemma state_after_append: "state_after t (tr @ tr') = state_after (state_after t tr) tr'"
  by (induction tr arbitrary: t) (auto simp: state_after_def)

lemma state_after_zip: "state_after t (zip acts (states acts t)) = exec acts t"
  by (induction acts arbitrary: t) (simp_all add: state_after_def exec_def)

lemma state_after_run: "state_after t (fst (run acts t)) = exec acts t"
  by (simp add: run_zip state_after_zip)

lemma for_await_no_throw: "snd (for_await cs t) = None"
proof (induction cs arbitrary: t)
  case Nil
  show ?case by simp
next
  case (Cons c cs)
  obtain acts brk
    where h: "handle_chunk (accumulatedThinking t) (accumulatedContent t) c = (acts, brk)"
    by (cases "handle_chunk (accumulatedThinking t) (accumulatedContent t) c")
  show ?case using Cons [of "exec acts t"] h
    by (simp add: split_beta run_zip state_after_zip)
qed

lemma for_await_Cons:
  "fst (for_await (c # cs) t) =
     (let h = handle_chunk (accumulatedThinking t) (accumulatedContent t) c;
          tr = zip (fst h) (states (fst h) t)
      in if snd h then tr else tr @ fst (for_await cs (exec (fst h) t)))"
proof -
  obtain acts brk
    where h: "handle_chunk (accumulatedThinking t) (accumulatedContent t) c = (acts, brk)"
    by (cases "handle_chunk (accumulatedThinking t) (accumulatedContent t) c")
  show ?thesis using h
    by (simp add: split_beta Let_def run_zip state_after_zip)
qed

declare for_await.simps(2) [simp del]

lemma handleSend_eq:
  "handleSend clk msg cs t0 =
     (let t1 = exec (turn_start clk msg) t0;
          tr1 = fst (for_await cs t1);
          t2 = state_after t1 tr1
      in (zip (turn_start clk msg) (states (turn_start clk msg) t0) @ tr1
          @ zip finally_block (states finally_block t2), None))"
proof -
  obtain tr1 where b: "for_await cs (exec (turn_start clk msg) t0) = (tr1, None)"
    using for_await_no_throw [of cs "exec (turn_start clk msg) t0"]
    by (cases "for_await cs (exec (turn_start clk msg) t0)") simp
  show ?thesis
    by (simp add: handleSend_def Let_def run_zip state_after_zip b state_after_Nil)
qed

subsection \<open>The state after a chunk, after the loop, after the turn\<close>

lemma merge_last_twice:
  "merge_last \<lparr>u_content = None, u_thinking = Some x\<rparr>
     (merge_last \<lparr>u_content = None, u_thinking = Some y\<rparr> s)
   = merge_last \<lparr>u_content = None, u_thinking = Some x\<rparr> s"
  by (simp add: merge_last_def spread_def)

lemma exec_reveal:
  "exec (reveal cur segs) t =
     (if segs = [] then t
      else t\<lparr>accumulatedThinking := cur @ concat segs,
             store := merge_last \<lparr>u_content = None, u_thinking = Some (cur @ concat segs)\<rparr>
                        (store t)\<rparr>)"
proof (induction segs arbitrary: cur t)
  case Nil
  show ?case by (simp add: exec_Nil)
next
  case (Cons s segs)
  show ?case
    by (simp add: Let_def exec_Cons Cons merge_last_twice)
qed

lemma exec_handle_chunk:
  "exec (fst (handle_chunk aT aC c)) t =
     (if type c = Some ''thinking'' \<and> truthy (thinking_content c) then
        t\<lparr>isThinkingStreaming := True,
          accumulatedThinking := the (thinking_content c),
          store := merge_last \<lparr>u_content = None, u_thinking = thinking_content c\<rparr> (store t)\<rparr>
      else if type c = Some ''content'' \<and> truthy (chunk c) then
        t\<lparr>isThinkingStreaming := False, isContentStreaming := True,
          accumulatedContent := aC @ the (chunk c),
          store := merge_last \<lparr>u_content = Some (aC @ the (chunk c)), u_thinking = None\<rparr>
                     (store t)\<rparr>
      else if type c = Some ''finish'' \<or> truthy_flag (done_flag c) then
        t\<lparr>isThinkingStreaming := False, isContentStreaming := False,
          store := merge_last \<lparr>u_content = Some aC, u_thinking = Some aT\<rparr> (store t)\<rparr>
      else if type c = Some ''error'' then
        t\<lparr>store := setError (Some (if truthy (chunk c) then the (chunk c) else ''Unknown error''))
                     (store t)\<rparr>
      else t)"
  by (auto simp: handle_chunk_def Let_def exec_Cons exec_Nil exec_append exec_reveal
      merge_last_twice truthy_def split: option.splits)

lemma loop_end_Nil: "loop_end [] t = t"
  by (simp add: loop_end_def state_after_Nil)

lemma loop_end_Cons:
  "loop_end (c # cs) t =
     (let h = handle_chunk (accumulatedThinking t) (accumulatedContent t) c
      in if snd h then exec (fst h) t else loop_end cs (exec (fst h) t))"
  by (simp add: loop_end_def for_await_Cons Let_def state_after_zip state_after_append
      del: for_await.simps)

lemma turn_end_eq:
  "turn_end clk msg cs t0 = exec finally_block (loop_end cs (exec (turn_start clk msg) t0))"
  by (simp add: turn_end_def handleSend_eq Let_def state_after_append state_after_zip loop_end_def)


lemma lastMessage_merge_last:
  "lastMessage (merge_last upd s) = map_option (\<lambda>m. spread m upd) (lastMessage s)"
  by (simp add: lastMessage_def merge_last_def)

lemma lastMessage_addMessage: "lastMessage (addMessage m s) = Some m"
  by (simp add: lastMessage_def addMessage_def)

lemma lastMessage_setError: "lastMessage (setError e s) = lastMessage s"
  by (simp add: lastMessage_def setError_def)

lemma lastMessage_setStreaming: "lastMessage (setStreaming b s) = lastMessage s"
  by (simp add: lastMessage_def setStreaming_def)

lemmas lastMessage_simps =
  lastMessage_merge_last lastMessage_addMessage lastMessage_setError lastMessage_setStreaming

lemma snd_handle_chunk:
  "snd (handle_chunk aT aC c) \<longleftrightarrow>
     \<not> (type c = Some ''thinking'' \<and> truthy (thinking_content c)) \<and>
     \<not> (type c = Some ''content'' \<and> truthy (chunk c)) \<and>
     (type c = Some ''finish'' \<or> truthy_flag (done_flag c) \<or> type c = Some ''error'')"
  by (simp add: handle_chunk_def Let_def)

lemma exec_turn_start:
  "exec (turn_start clk msg) t0 =
     t0\<lparr>store := setError None (setStreaming True
                  (addMessage (assistantMessage clk) (addMessage (userMessage clk msg) (store t0)))),
        isThinkingStreaming := False, isContentStreaming := False,
        accumulatedThinking := [], accumulatedContent := []\<rparr>"
  by (simp add: turn_start_def exec_Cons exec_Nil)

lemma exec_finally_block:
  "exec finally_block t =
     t\<lparr>store := setStreaming False (store t),
       isThinkingStreaming := False, isContentStreaming := False\<rparr>"
  by (simp add: finally_block_def exec_Cons exec_Nil)

lemma fragments_loop:
  "stored_content t = Some (accumulatedContent t) \<Longrightarrow>
   stored_content (loop_end cs t) = Some (accumulatedContent (loop_end cs t)) \<and>
   accumulatedContent (loop_end cs t) = accumulatedContent t @ concat (fragments cs)"
proof (induction cs arbitrary: t)
  case Nil
  then show ?case by (simp add: loop_end_Nil)
next
  case (Cons c cs)
  let ?t = "exec (fst (handle_chunk (accumulatedThinking t) (accumulatedContent t) c)) t"
  have st: "stored_content ?t = Some (accumulatedContent ?t)"
    using Cons.prems
    by (auto simp: exec_handle_chunk stored_content_def lastMessage_simps spread_def)
  show ?case
  proof (cases "snd (handle_chunk (accumulatedThinking t) (accumulatedContent t) c)")
    case True
    then show ?thesis using st
      by (auto simp: loop_end_Cons Let_def snd_handle_chunk exec_handle_chunk)
  next
    case False
    then show ?thesis using Cons.IH [OF st]
      by (auto simp: loop_end_Cons Let_def snd_handle_chunk exec_handle_chunk)
  qed
qed

lemma fragments_deltas:
  "list_all2 is_content_delta cs fs \<Longrightarrow> concat (fragments cs) = concat fs"
  by (induction cs fs rule: list_all2_induct)
     (auto simp: is_content_delta_def truthy_def)

lemma synced_step:
  "synced t \<Longrightarrow>
   synced (exec (fst (handle_chunk (accumulatedThinking t) (accumulatedContent t) c)) t)"
  by (auto simp: exec_handle_chunk synced_def stored_content_def stored_thinking_def
      lastMessage_simps spread_def truthy_def split: option.splits)

lemma synced_loop_end: "synced t \<Longrightarrow> synced (loop_end cs t)"
  by (induction cs arbitrary: t) (simp_all add: loop_end_Nil loop_end_Cons Let_def synced_step)

lemma synced_turn_start: "synced (exec (turn_start clk msg) t0)"
  by (simp add: exec_turn_start synced_def stored_content_def stored_thinking_def
      lastMessage_simps assistantMessage_def)

lemma spread_same:
  "thinking m = Some x \<Longrightarrow> spread m \<lparr>u_content = Some (content m), u_thinking = Some x\<rparr> = m"
  by (cases m) (simp add: spread_def)

lemma merge_last_synced:
  "synced t \<Longrightarrow>
   merge_last \<lparr>u_content = Some (accumulatedContent t),
               u_thinking = Some (accumulatedThinking t)\<rparr> (store t) = store t"
proof -
  assume s: "synced t"
  let ?ms = "messages (store t)"
  from s have ne: "?ms \<noteq> []"
    by (auto simp: synced_def stored_content_def lastMessage_def split: if_splits)
  from s ne have c: "accumulatedContent t = content (last ?ms)"
    and th: "thinking (last ?ms) = Some (accumulatedThinking t)"
    by (simp_all add: synced_def stored_content_def stored_thinking_def lastMessage_def)
  have "spread (last ?ms) \<lparr>u_content = Some (accumulatedContent t),
          u_thinking = Some (accumulatedThinking t)\<rparr> = last ?ms"
    unfolding c by (rule spread_same [OF th])
  then show ?thesis using ne by (simp add: merge_last_def)
qed

lemma exec_finish:
  "synced t \<Longrightarrow> is_finish c \<Longrightarrow>
   exec (fst (handle_chunk (accumulatedThinking t) (accumulatedContent t) c)) t =
     t\<lparr>isThinkingStreaming := False, isContentStreaming := False\<rparr>"
  by (auto simp: exec_handle_chunk is_finish_def merge_last_synced)

lemma finish_loop:
  "synced t \<Longrightarrow> is_finish c \<Longrightarrow>
   exec finally_block (loop_end (cs @ [c]) t) = exec finally_block (loop_end cs t)"
proof (induction cs arbitrary: t)
  case Nil
  then show ?case
    by (simp add: loop_end_Nil loop_end_Cons Let_def exec_finish exec_finally_block)
next
  case (Cons x cs)
  then show ?case
    by (simp add: loop_end_Cons Let_def synced_step)
qed

lemmas events_defs =
  thinking_event_def content_event_def finish_event_def error_event_def

lemma error_loop:
  "type e = Some ''error'' \<Longrightarrow> synced t \<Longrightarrow>
   messages (store (loop_end (cs @ [e]) t)) = messages (store (loop_end cs t))"
proof (induction cs arbitrary: t)
  case Nil
  then show ?case
    by (simp add: loop_end_Nil loop_end_Cons Let_def exec_handle_chunk setError_def
        merge_last_synced)
next
  case (Cons x cs)
  then show ?case
    by (simp add: loop_end_Cons Let_def synced_step)
qed

subsection \<open>Segmentation and the running concatenation of the segments\<close>

lemma match_all_no_terminator:
  "\<forall>x\<in>set xs. \<not> is_terminator x \<Longrightarrow> match_all xs = []"
proof (induction xs)
  case Nil
  show ?case by simp
next
  case (Cons a xs)
  then have d: "dropWhile (\<lambda>x. \<not> is_terminator x) xs = []"
    by (simp add: dropWhile_eq_Nil_conv)
  from Cons show ?case by (simp add: Let_def d)
qed

lemma match_all_prefix: "prefix (concat (match_all xs)) (dropWhile is_terminator xs)"
proof (induction xs rule: match_all.induct)
  case 1
  show ?case by simp
next
  case (2 c cs)
  let ?body = "takeWhile (\<lambda>x. \<not> is_terminator x) (c # cs)"
  let ?rest = "dropWhile (\<lambda>x. \<not> is_terminator x) (c # cs)"
  let ?marks = "takeWhile is_terminator ?rest"
  let ?rest' = "dropWhile is_terminator ?rest"
  show ?case
  proof (cases "is_terminator c")
    case True
    then show ?thesis using "2.IH"(1) by (simp add: Let_def)
  next
    case nt: False
    show ?thesis
    proof (cases "?marks = []")
      case True
      have "?rest = []"
      proof (rule ccontr)
        assume "?rest \<noteq> []"
        then have "is_terminator (hd ?rest)"
          using hd_dropWhile [of "\<lambda>x. \<not> is_terminator x" "c # cs"] by simp
        with \<open>?rest \<noteq> []\<close> have "?marks \<noteq> []" by (cases ?rest) simp_all
        with True show False by simp
      qed
      then have "\<forall>x\<in>set (c # cs). \<not> is_terminator x"
        by (simp only: dropWhile_eq_Nil_conv)
      then have "match_all (c # cs) = []" by (rule match_all_no_terminator)
      then show ?thesis by simp
    next
      case False
      have m: "match_all (c # cs) = (?body @ ?marks) # match_all ?rest'"
        using nt False by (simp add: Let_def)
      have "prefix (concat (match_all ?rest')) (dropWhile is_terminator ?rest')"
        using "2.IH"(2) [OF refl refl refl] nt False by simp
      then have "prefix (concat (match_all ?rest')) ?rest'"
        by (simp add: dropWhile_idem)
      then have "prefix (?body @ ?marks @ concat (match_all ?rest')) (?body @ ?marks @ ?rest')"
        by (simp only: same_prefix_prefix)
      then have "prefix (?body @ ?marks @ concat (match_all ?rest')) (c # cs)"
        by (simp only: takeWhile_dropWhile_id)
      moreover have "dropWhile is_terminator (c # cs) = c # cs" using nt by simp
      ultimately show ?thesis by (simp only: m concat.simps append_assoc)
    qed
  qed
qed

lemma match_all_nonempty: "[] \<notin> set (match_all xs)"
proof (induction xs rule: match_all.induct)
  case 1
  show ?case by simp
next
  case (2 c cs)
  then show ?case by (auto simp: Let_def)
qed


lemma sentences_nonempty: "T \<noteq> [] \<Longrightarrow> [] \<notin> set (sentences T)"
  using match_all_nonempty [of T] by (auto simp: sentences_def split: list.splits)

lemma sentences_prefix:
  "T \<noteq> [] \<Longrightarrow> \<not> is_terminator (hd T) \<Longrightarrow> prefix (concat (sentences T)) T"
proof -
  assume "T \<noteq> []" and "\<not> is_terminator (hd T)"
  then have "dropWhile is_terminator T = T" by (cases T) simp_all
  with match_all_prefix [of T] have "prefix (concat (match_all T)) T" by simp
  then show ?thesis by (cases "match_all T") (simp_all add: sentences_def)
qed

lemma sentences_single:
  "\<forall>x\<in>set T. \<not> is_terminator x \<Longrightarrow> sentences T = [T]"
  by (simp add: sentences_def match_all_no_terminator)

lemma thinking_writes_append:
  "thinking_writes (as @ bs) = thinking_writes as @ thinking_writes bs"
  by (induction as rule: thinking_writes.induct) simp_all

lemma thinking_writes_reveal:
  "thinking_writes (reveal cur segs) = map (\<lambda>p. cur @ concat p) (tl (prefixes segs))"
proof (induction segs arbitrary: cur)
  case Nil
  show ?case by simp
next
  case (Cons s segs)
  have "prefixes segs = [] # tl (prefixes segs)"
    by (cases segs) simp_all
  then have "tl (prefixes (s # segs)) = [s] # map ((#) s) (tl (prefixes segs))"
    by (metis list.sel(3) list.simps(9) prefixes.simps(2))
  then show ?case by (simp add: Let_def Cons comp_def)
qed

lemma running_concat_chain:
  "[] \<notin> set segs \<Longrightarrow> sorted_wrt strict_prefix (map concat (prefixes segs))"
proof (induction segs)
  case Nil
  show ?case by simp
next
  case (Cons s segs)
  then have s: "s \<noteq> []" and IH: "sorted_wrt strict_prefix (map concat (prefixes segs))"
    by auto
  have "sorted_wrt strict_prefix (map (\<lambda>p. s @ concat p) (prefixes segs))"
    using IH by (simp add: sorted_wrt_map strict_prefix_def)
  moreover have "\<forall>p\<in>set (prefixes segs). strict_prefix [] (s @ concat p)"
    using s by (simp add: strict_prefix_def)
  ultimately show ?case by (simp add: comp_def)
qed

lemma running_concat_chain_tl:
  "[] \<notin> set segs \<Longrightarrow> sorted_wrt strict_prefix (map concat (tl (prefixes segs)))"
  using running_concat_chain [of segs] by (cases "prefixes segs") simp_all

lemma running_concat_prefix:
  "p \<in> set (tl (prefixes segs)) \<Longrightarrow> prefix (concat p) (concat segs)"
proof -
  assume "p \<in> set (tl (prefixes segs))"
  then have "p \<in> set (prefixes segs)" by (cases "prefixes segs") simp_all
  then have "prefix p segs" by simp
  then show ?thesis by (auto simp: prefix_def)
qed

text \<open>The segments of three sample texts.\<close>

lemma sentences_AB: "sentences ''A. B.'' = [''A.'', '' B.'']"
  by (simp add: sentences_def Let_def is_terminator_def)

lemma sentences_AbCd: "sentences ''Ab. Cd.'' = [''Ab.'', '' Cd.'']"
  by (simp add: sentences_def Let_def is_terminator_def)

lemma sentences_E: "sentences ''E.'' = [''E.'']"
  by (simp add: sentences_def Let_def is_terminator_def)

subsection \<open>A store without messages\<close>

lemma reveal_no_AddMessage: "AddMessage m \<notin> set (reveal cur segs)"
  by (induction segs arbitrary: cur) (simp_all add: Let_def)

lemma handle_chunk_no_AddMessage: "AddMessage m \<notin> set (fst (handle_chunk aT aC c))"
  by (simp add: handle_chunk_def Let_def reveal_no_AddMessage)

lemma effect_keeps_empty:
  "(\<forall>m. a \<noteq> AddMessage m) \<Longrightarrow> messages (store t) = [] \<Longrightarrow>
   messages (store (effect a t)) = []"
  by (cases a) (simp_all add: merge_last_def setStreaming_def setError_def)

lemma states_keep_empty:
  "\<forall>m. AddMessage m \<notin> set acts \<Longrightarrow> messages (store t) = [] \<Longrightarrow>
   (\<forall>s\<in>set (states acts t). messages (store s) = []) \<and> messages (store (exec acts t)) = []"
proof (induction acts arbitrary: t)
  case Nil
  then show ?case by (simp add: exec_Nil)
next
  case (Cons a acts)
  from Cons.prems have "\<forall>m. a \<noteq> AddMessage m" and "messages (store t) = []"
    by auto
  then have e: "messages (store (effect a t)) = []"
    by (rule effect_keeps_empty)
  from Cons.prems have "\<forall>m. AddMessage m \<notin> set acts" by simp
  from Cons.IH [OF this e] e show ?case by (simp add: exec_Cons)
qed

lemma snd_zip_states: "snd ` set (zip acts (states acts t)) = set (states acts t)"
proof -
  have "map snd (zip acts (states acts t)) = states acts t"
    by (simp add: length_states)
  then show ?thesis by (metis set_map)
qed

lemma for_await_keeps_empty:
  "messages (store t) = [] \<Longrightarrow>
   (\<forall>s\<in>snd ` set (fst (for_await cs t)). messages (store s) = []) \<and>
   messages (store (loop_end cs t)) = []"
proof (induction cs arbitrary: t)
  case Nil
  then show ?case by (simp add: loop_end_Nil)
next
  case (Cons c cs)
  let ?h = "handle_chunk (accumulatedThinking t) (accumulatedContent t) c"
  let ?acts = "fst ?h"
  have e: "(\<forall>s\<in>set (states ?acts t). messages (store s) = []) \<and>
      messages (store (exec ?acts t)) = []"
    using Cons.prems by (intro states_keep_empty allI handle_chunk_no_AddMessage)
  show ?case
  proof (cases "snd ?h")
    case True
    then have "fst (for_await (c # cs) t) = zip ?acts (states ?acts t)"
      and "loop_end (c # cs) t = exec ?acts t"
      by (simp_all only: for_await_Cons loop_end_Cons Let_def if_True)
    then show ?thesis using e by (simp only: snd_zip_states) simp
  next
    case False
    then have "fst (for_await (c # cs) t) =
        zip ?acts (states ?acts t) @ fst (for_await cs (exec ?acts t))"
      and "loop_end (c # cs) t = loop_end cs (exec ?acts t)"
      by (simp_all only: for_await_Cons loop_end_Cons Let_def if_False)
    then show ?thesis using e Cons.IH [of "exec ?acts t"]
      by (simp only: set_append image_Un snd_zip_states) blast
  qed
qed

lemma map_fst_zip_states: "map fst (zip acts (states acts t)) = acts"
  by (simp add: length_states)

subsection \<open>The accumulators along a trace\<close>

lemma successively_join:
  "successively R (t # xs) \<Longrightarrow> successively R (last (t # xs) # ys) \<Longrightarrow>
   successively R (t # xs @ ys)"
  using successively_append_iff [of R "t # xs" ys]
  by (cases ys) (simp_all add: successively_Cons)

lemma last_states: "last (t # states acts t) = exec acts t"
  by (induction acts arbitrary: t) (simp_all add: exec_Nil exec_Cons)

lemma map_snd_zip_states: "map snd (zip acts (states acts t)) = states acts t"
  by (simp add: length_states)

lemma sorted_wrt_last:
  assumes "sorted_wrt R xs" and "x \<in> set xs" and "\<And>y. R y y"
  shows "R x (last xs)"
proof -
  from assms(2) obtain ys zs where xs: "xs = ys @ x # zs"
    by (auto simp: in_set_conv_decomp)
  show ?thesis
  proof (cases "zs = []")
    case True
    with xs assms(3) show ?thesis by simp
  next
    case False
    then have "last xs \<in> set zs" using xs by simp
    with assms(1) xs show ?thesis by (simp add: sorted_wrt_append)
  qed
qed

lemma chain_sorted:
  assumes "successively R (t # map snd tr)" and "transp R"
  shows "sorted_wrt R (write_states tr)"
proof -
  from assms have "sorted_wrt R (t # map snd tr)"
    by (simp only: successively_conv_sorted_wrt)
  then have "sorted_wrt (\<lambda>x y. R (snd x) (snd y)) tr"
    by (simp add: sorted_wrt_map)
  then have "sorted_wrt (\<lambda>x y. R (snd x) (snd y)) (filter (\<lambda>(a, s). is_write a) tr)"
    by (rule sorted_wrt_filter)
  then show ?thesis by (simp add: write_states_def sorted_wrt_map)
qed

lemma chain_last:
  assumes "successively R (t # map snd tr)" and "transp R" and "\<And>y. R y y"
    and "s \<in> set (write_states tr)"
  shows "R s (state_after t tr)"
proof -
  from assms(1,2) have "sorted_wrt R (t # map snd tr)"
    by (simp only: successively_conv_sorted_wrt)
  moreover from assms(4) have "s \<in> set (t # map snd tr)"
    by (auto simp: write_states_def)
  ultimately have "R s (last (t # map snd tr))"
    using assms(3) by (rule sorted_wrt_last)
  then show ?thesis by (simp only: state_after_def)
qed

lemma transp_content_grows: "transp content_grows"
  by (auto simp: transp_def content_grows_def)

lemma transp_thinking_grows: "transp thinking_grows"
  by (auto simp: transp_def thinking_grows_def)

lemma content_chain_acts:
  "\<forall>x. Assign_accumulatedContent x \<in> set acts \<longrightarrow> x = X \<Longrightarrow>
   prefix (accumulatedContent t) X \<Longrightarrow>
   successively content_grows (t # states acts t)"
proof (induction acts arbitrary: t)
  case Nil
  show ?case by simp
next
  case (Cons a acts)
  have step: "content_grows t (effect a t) \<and> prefix (accumulatedContent (effect a t)) X"
    using Cons.prems by (cases a) (auto simp: content_grows_def)
  moreover have "successively content_grows (effect a t # states acts (effect a t))"
    using Cons.prems step by (intro Cons.IH) simp_all
  ultimately show ?case by (simp add: successively_Cons)
qed

lemma reveal_no_content_assign: "Assign_accumulatedContent x \<notin> set (reveal cur segs)"
  by (induction segs arbitrary: cur) (simp_all add: Let_def)

lemma handle_chunk_content_assign:
  "Assign_accumulatedContent x \<in> set (fst (handle_chunk aT aC c)) \<Longrightarrow> x = aC @ the (chunk c)"
  by (simp add: handle_chunk_def Let_def reveal_no_content_assign split: if_splits)

lemma content_chain_chunk:
  "successively content_grows
     (t # states (fst (handle_chunk (accumulatedThinking t) (accumulatedContent t) c)) t)"
  by (rule content_chain_acts [where X = "accumulatedContent t @ the (chunk c)"])
     (auto dest: handle_chunk_content_assign)

lemma content_chain_loop:
  "successively content_grows (t # map snd (fst (for_await cs t)))"
proof (induction cs arbitrary: t)
  case Nil
  show ?case by simp
next
  case (Cons c cs)
  let ?h = "handle_chunk (accumulatedThinking t) (accumulatedContent t) c"
  have a: "successively content_grows (t # states (fst ?h) t)"
    by (rule content_chain_chunk)
  show ?case
  proof (cases "snd ?h")
    case True
    then have "map snd (fst (for_await (c # cs) t)) = states (fst ?h) t"
      by (simp only: for_await_Cons Let_def if_True map_snd_zip_states)
    with a show ?thesis by simp
  next
    case False
    then have "map snd (fst (for_await (c # cs) t)) =
        states (fst ?h) t @ map snd (fst (for_await cs (exec (fst ?h) t)))"
      by (simp only: for_await_Cons Let_def if_False map_append map_snd_zip_states)
    moreover have "successively content_grows
        (last (t # states (fst ?h) t) # map snd (fst (for_await cs (exec (fst ?h) t))))"
      by (simp only: last_states Cons.IH)
    ultimately show ?thesis using a by (simp only: successively_join)
  qed
qed


lemma thinking_const_acts:
  "\<forall>x. Assign_accumulatedThinking x \<notin> set acts \<Longrightarrow>
   successively thinking_grows (t # states acts t) \<and>
   accumulatedThinking (exec acts t) = accumulatedThinking t"
proof (induction acts arbitrary: t)
  case Nil
  show ?case by (simp add: exec_Nil)
next
  case (Cons a acts)
  have step: "thinking_grows t (effect a t) \<and> accumulatedThinking (effect a t) = accumulatedThinking t"
    using Cons.prems by (cases a) (auto simp: thinking_grows_def)
  moreover have "successively thinking_grows (effect a t # states acts (effect a t)) \<and>
      accumulatedThinking (exec acts (effect a t)) = accumulatedThinking (effect a t)"
    using Cons.prems by (intro Cons.IH) simp
  ultimately show ?case by (simp add: successively_Cons exec_Cons)
qed

lemma handle_chunk_no_thinking_assign:
  "\<not> takes_thinking c \<Longrightarrow> Assign_accumulatedThinking x \<notin> set (fst (handle_chunk aT aC c))"
  by (auto simp: handle_chunk_def takes_thinking_def Let_def)

lemma thinking_chain_reveal:
  "prefix (accumulatedThinking t) cur \<Longrightarrow>
   successively thinking_grows (t # states (reveal cur segs) t)"
proof (induction segs arbitrary: cur t)
  case Nil
  show ?case by simp
next
  case (Cons s segs)
  let ?t1 = "effect (Assign_accumulatedThinking (cur @ s)) t"
  let ?t2 = "effect (UpdateLastMessage \<lparr>u_content = None, u_thinking = Some (cur @ s)\<rparr>) ?t1"
  have "prefix (accumulatedThinking ?t2) (cur @ s)" by simp
  then have "successively thinking_grows (?t2 # states (reveal (cur @ s) segs) ?t2)"
    by (rule Cons.IH)
  moreover have "thinking_grows t ?t1" "thinking_grows ?t1 ?t2" "thinking_grows ?t2 ?t2"
    using Cons.prems by (simp_all add: thinking_grows_def)
  ultimately show ?case by (simp add: Let_def successively_Cons)
qed


lemma thinking_chain_chunk:
  assumes "takes_thinking c" and "accumulatedThinking t = []"
    and "\<not> is_terminator (hd (the (thinking_content c)))"
  shows "successively thinking_grows (t # states (fst (handle_chunk aT aC c)) t)"
proof -
  let ?T = "the (thinking_content c)"
  let ?segs = "sentences ?T"
  let ?t1 = "effect (SetIsThinkingStreaming True) t"
  let ?t2 = "exec (reveal [] ?segs) ?t1"
  let ?fin = "[Assign_accumulatedThinking ?T,
     UpdateLastMessage \<lparr>u_content = None, u_thinking = Some ?T\<rparr>]"
  from assms(1) have ne: "?T \<noteq> []"
    by (auto simp: takes_thinking_def truthy_def split: option.splits)
  have acts: "fst (handle_chunk aT aC c) = SetIsThinkingStreaming True # (reveal [] ?segs @ ?fin)"
    using assms(1) by (simp add: handle_chunk_def takes_thinking_def Let_def)
  have a: "successively thinking_grows (?t1 # states (reveal [] ?segs) ?t1)"
    using assms(2) by (intro thinking_chain_reveal) simp
  have "prefix (concat ?segs) ?T" using ne assms(3) by (rule sentences_prefix)
  then have "prefix (accumulatedThinking ?t2) ?T"
    using assms(2) by (simp add: exec_reveal)
  then have b: "successively thinking_grows (?t2 # states ?fin ?t2)"
    by (simp add: thinking_grows_def successively_Cons)
  have "successively thinking_grows (?t1 # states (reveal [] ?segs) ?t1 @ states ?fin ?t2)"
    using a b by (intro successively_join) (simp_all only: last_states)
  moreover have "thinking_grows t ?t1" by (simp add: thinking_grows_def)
  ultimately show ?thesis
    by (simp only: acts states.simps states_append successively_Cons) simp
qed


lemma thinking_chain_loop:
  "length (filter takes_thinking cs) \<le> 1 \<Longrightarrow>
   \<forall>c\<in>set cs. takes_thinking c \<longrightarrow> \<not> is_terminator (hd (the (thinking_content c))) \<Longrightarrow>
   (filter takes_thinking cs \<noteq> [] \<Longrightarrow> accumulatedThinking t = []) \<Longrightarrow>
   successively thinking_grows (t # map snd (fst (for_await cs t)))"
proof (induction cs arbitrary: t)
  case Nil
  show ?case by simp
next
  case (Cons c cs)
  let ?h = "handle_chunk (accumulatedThinking t) (accumulatedContent t) c"
  have a: "successively thinking_grows (t # states (fst ?h) t)"
  proof (cases "takes_thinking c")
    case True
    with Cons.prems show ?thesis by (intro thinking_chain_chunk) simp_all
  next
    case False
    then show ?thesis
      using thinking_const_acts [of "fst ?h" t] by (simp add: handle_chunk_no_thinking_assign)
  qed
  have rest: "successively thinking_grows
      (exec (fst ?h) t # map snd (fst (for_await cs (exec (fst ?h) t))))"
  proof (rule Cons.IH)
    show "length (filter takes_thinking cs) \<le> 1"
      using Cons.prems(1) by (simp split: if_splits)
    show "\<forall>c\<in>set cs. takes_thinking c \<longrightarrow> \<not> is_terminator (hd (the (thinking_content c)))"
      using Cons.prems(2) by simp
    show "accumulatedThinking (exec (fst ?h) t) = []" if f: "filter takes_thinking cs \<noteq> []"
    proof -
      have nt: "\<not> takes_thinking c"
      proof
        assume "takes_thinking c"
        with Cons.prems(1) have "length (filter takes_thinking cs) = 0" by simp
        with f show False by simp
      qed
      with f Cons.prems(3) have "accumulatedThinking t = []" by simp
      with nt show ?thesis
        using thinking_const_acts [of "fst ?h" t] by (simp add: handle_chunk_no_thinking_assign)
    qed
  qed
  show ?case
  proof (cases "snd ?h")
    case True
    then have "map snd (fst (for_await (c # cs) t)) = states (fst ?h) t"
      by (simp only: for_await_Cons Let_def if_True map_snd_zip_states)
    with a show ?thesis by simp
  next
    case False
    then have "map snd (fst (for_await (c # cs) t)) =
        states (fst ?h) t @ map snd (fst (for_await cs (exec (fst ?h) t)))"
      by (simp only: for_await_Cons Let_def if_False map_append map_snd_zip_states)
    moreover have "successively thinking_grows
        (last (t # states (fst ?h) t) # map snd (fst (for_await cs (exec (fst ?h) t))))"
      by (simp only: last_states rest)
    ultimately show ?thesis using a by (simp only: successively_join)
  qed
qed


lemma write_states_Nil: "write_states [] = []"
  by (simp add: write_states_def)

lemma write_states_Cons:
  "write_states ((a, s) # tr) = (if is_write a then [s] else []) @ write_states tr"
  by (simp add: write_states_def)

lemma write_states_append: "write_states (tr @ tr') = write_states tr @ write_states tr'"
  by (simp add: write_states_def)

lemma zip_states_append:
  "zip (as @ bs) (states (as @ bs) t) = zip as (states as t) @ zip bs (states bs (exec as t))"
  by (simp add: states_append length_states)

lemma synced_writes_reveal:
  "stored_content t = Some (accumulatedContent t) \<Longrightarrow>
   \<forall>s\<in>set (write_states (zip (reveal cur segs) (states (reveal cur segs) t))). synced s"
proof (induction segs arbitrary: cur t)
  case Nil
  show ?case by (simp add: write_states_Nil)
next
  case (Cons x segs)
  let ?t1 = "effect (Assign_accumulatedThinking (cur @ x)) t"
  let ?t2 = "effect (UpdateLastMessage \<lparr>u_content = None, u_thinking = Some (cur @ x)\<rparr>) ?t1"
  have s2: "synced ?t2"
    using Cons.prems
    by (auto simp: synced_def stored_content_def stored_thinking_def lastMessage_simps spread_def)
  then have "stored_content ?t2 = Some (accumulatedContent ?t2)"
    by (simp add: synced_def)
  then have "\<forall>s\<in>set (write_states (zip (reveal (cur @ x) segs)
      (states (reveal (cur @ x) segs) ?t2))). synced s"
    by (rule Cons.IH)
  with s2 show ?case
    by (simp add: Let_def write_states_Cons)
qed

lemma synced_writes_chunk:
  "synced t \<Longrightarrow>
   \<forall>s\<in>set (write_states (zip (fst (handle_chunk (accumulatedThinking t) (accumulatedContent t) c))
       (states (fst (handle_chunk (accumulatedThinking t) (accumulatedContent t) c)) t))). synced s"
proof -
  assume s: "synced t"
  let ?aT = "accumulatedThinking t" and ?aC = "accumulatedContent t"
  consider (th) "takes_thinking c"
    | (other) "\<not> takes_thinking c"
    by blast
  then show ?thesis
  proof cases
    case th
    let ?T = "the (thinking_content c)"
    let ?segs = "sentences ?T"
    let ?t1 = "effect (SetIsThinkingStreaming True) t"
    let ?t2 = "exec (reveal [] ?segs) ?t1"
    let ?fin = "[Assign_accumulatedThinking ?T,
       UpdateLastMessage \<lparr>u_content = None, u_thinking = Some ?T\<rparr>]"
    have acts: "fst (handle_chunk ?aT ?aC c) = [SetIsThinkingStreaming True] @ reveal [] ?segs @ ?fin"
      using th by (simp add: handle_chunk_def takes_thinking_def Let_def)
    have c1: "stored_content ?t1 = Some (accumulatedContent ?t1)"
      using s by (simp add: synced_def stored_content_def)
    then have a: "\<forall>s\<in>set (write_states (zip (reveal [] ?segs) (states (reveal [] ?segs) ?t1))).
        synced s"
      by (rule synced_writes_reveal)
    have "stored_content ?t2 = Some (accumulatedContent ?t2)"
      using c1 by (auto simp: exec_reveal stored_content_def lastMessage_simps spread_def)
    then have b: "synced (exec ?fin ?t2)"
      by (auto simp: exec_Cons exec_Nil synced_def stored_content_def stored_thinking_def
          lastMessage_simps spread_def)
    show ?thesis
      unfolding acts zip_states_append write_states_append
      using a b
      by (simp add: write_states_Cons write_states_Nil exec_Cons exec_Nil)
  next
    case other
    then show ?thesis using s
      by (auto simp: handle_chunk_def takes_thinking_def Let_def write_states_Cons
          write_states_Nil synced_def stored_content_def stored_thinking_def lastMessage_simps
          spread_def split: if_splits)
  qed
qed

lemma synced_writes_loop:
  "synced t \<Longrightarrow> \<forall>s\<in>set (write_states (fst (for_await cs t))). synced s"
proof (induction cs arbitrary: t)
  case Nil
  show ?case by (simp add: write_states_Nil)
next
  case (Cons c cs)
  let ?h = "handle_chunk (accumulatedThinking t) (accumulatedContent t) c"
  have a: "\<forall>s\<in>set (write_states (zip (fst ?h) (states (fst ?h) t))). synced s"
    using Cons.prems by (rule synced_writes_chunk)
  have b: "\<forall>s\<in>set (write_states (fst (for_await cs (exec (fst ?h) t)))). synced s"
    using Cons.prems by (intro Cons.IH synced_step)
  show ?case
  proof (cases "snd ?h")
    case True
    then have "fst (for_await (c # cs) t) = zip (fst ?h) (states (fst ?h) t)"
      by (simp only: for_await_Cons Let_def if_True)
    with a show ?thesis by simp
  next
    case False
    then have "fst (for_await (c # cs) t) =
        zip (fst ?h) (states (fst ?h) t) @ fst (for_await cs (exec (fst ?h) t))"
      by (simp only: for_await_Cons Let_def if_False)
    with a b show ?thesis by (auto simp: write_states_append)
  qed
qed


lemma write_states_handleSend:
  "write_states (fst (handleSend clk msg cs t0)) =
   write_states (fst (for_await cs (exec (turn_start clk msg) t0)))"
  by (simp add: handleSend_eq Let_def write_states_append turn_start_def finally_block_def
      write_states_Cons write_states_Nil)

lemma grows_at_writes:
  assumes ch: "successively R (t # map snd (fst (for_await cs t)))"
    and tr: "transp R" and rf: "\<And>y. R y y"
    and len: "\<And>a b. R a b \<Longrightarrow> prefix (f a) (f b)"
  shows "sorted_wrt (\<lambda>a b. length (f a) \<le> length (f b)) (write_states (fst (for_await cs t)))"
    and "\<forall>s\<in>set (write_states (fst (for_await cs t))). prefix (f s) (f (loop_end cs t))"
proof -
  have "sorted_wrt R (write_states (fst (for_await cs t)))"
    using ch tr by (rule chain_sorted)
  then show "sorted_wrt (\<lambda>a b. length (f a) \<le> length (f b))
      (write_states (fst (for_await cs t)))"
    by (rule sorted_wrt_mono_rel [rotated]) (simp add: len prefix_length_le)
  show "\<forall>s\<in>set (write_states (fst (for_await cs t))). prefix (f s) (f (loop_end cs t))"
  proof
    fix s
    assume "s \<in> set (write_states (fst (for_await cs t)))"
    with ch tr rf have "R s (state_after t (fst (for_await cs t)))"
      by (rule chain_last)
    then show "prefix (f s) (f (loop_end cs t))"
      by (simp add: len loop_end_def)
  qed
qed

section \<open>The claims\<close>

subsection \<open>Thinking chunks\<close>

text \<open>
  Claim C1, as amended. For a thinking chunk with a non-empty text \<open>T\<close>, the texts written
  to the \<^verbatim>\<open>thinking\<close> field are the running concatenations of the segments of \<open>T\<close>, one
  write for each segment, followed by one more write of \<open>T\<close> itself. The writes for the
  segments grow strictly, each a proper prefix of the next; the last write is \<open>T\<close>; a text
  without \<^verbatim>\<open>.\<close>, \<^verbatim>\<open>!\<close>, \<^verbatim>\<open>?\<close> is one segment. When \<open>T\<close> does not begin with one
  of these three characters, every write is a prefix of \<open>T\<close>. On a store that has
  messages, the thinking text of the last message after the chunk is \<open>T\<close>.
\<close>

theorem thinking_reveal:
  "type c = Some ''thinking'' \<Longrightarrow> thinking_content c = Some T \<Longrightarrow> T \<noteq> [] \<Longrightarrow>
   thinking_writes (fst (handle_chunk accThinking accContent c))
     = map concat (tl (prefixes (sentences T))) @ [T] \<and>
   length (map concat (tl (prefixes (sentences T)))) = length (sentences T) \<and>
   sorted_wrt strict_prefix (map concat (tl (prefixes (sentences T)))) \<and>
   last (thinking_writes (fst (handle_chunk accThinking accContent c))) = T \<and>
   ((\<forall>x\<in>set T. \<not> is_terminator x) \<longrightarrow> sentences T = [T]) \<and>
   (\<not> is_terminator (hd T) \<longrightarrow>
      (\<forall>w\<in>set (thinking_writes (fst (handle_chunk accThinking accContent c))). prefix w T)) \<and>
   (messages (store t) \<noteq> [] \<longrightarrow>
      stored_thinking (state_after t (fst (run (fst (handle_chunk accThinking accContent c)) t)))
        = Some T)"
proof -
  assume ty: "type c = Some ''thinking''" and tc: "thinking_content c = Some T" and ne: "T \<noteq> []"
  have a: "thinking_writes (fst (handle_chunk accThinking accContent c))
     = map concat (tl (prefixes (sentences T))) @ [T]"
    using ty tc ne
    by (simp add: handle_chunk_def truthy_def Let_def thinking_writes_append
        thinking_writes_reveal)
  have b: "length (map concat (tl (prefixes (sentences T)))) = length (sentences T)"
    by simp
  have c: "sorted_wrt strict_prefix (map concat (tl (prefixes (sentences T))))"
    using sentences_nonempty [OF ne] by (rule running_concat_chain_tl)
  have l: "last (thinking_writes (fst (handle_chunk accThinking accContent c))) = T"
    by (simp add: a)
  have d: "(\<forall>x\<in>set T. \<not> is_terminator x) \<longrightarrow> sentences T = [T]"
    by (simp add: sentences_single)
  have e: "\<not> is_terminator (hd T) \<longrightarrow>
      (\<forall>w\<in>set (thinking_writes (fst (handle_chunk accThinking accContent c))). prefix w T)"
  proof (intro impI ballI)
    fix w
    assume nt: "\<not> is_terminator (hd T)"
      and "w \<in> set (thinking_writes (fst (handle_chunk accThinking accContent c)))"
    then consider p where "p \<in> set (tl (prefixes (sentences T)))" "w = concat p" | "w = T"
      unfolding a by auto
    then show "prefix w T"
    proof cases
      case 1
      then have "prefix w (concat (sentences T))" by (simp add: running_concat_prefix)
      also have "prefix (concat (sentences T)) T" using ne nt by (rule sentences_prefix)
      finally show ?thesis .
    next
      case 2
      then show ?thesis by simp
    qed
  qed
  have f: "messages (store t) \<noteq> [] \<longrightarrow>
      stored_thinking (state_after t (fst (run (fst (handle_chunk accThinking accContent c)) t)))
        = Some T"
    using ty tc ne
    by (simp add: state_after_run exec_handle_chunk truthy_def stored_thinking_def
        lastMessage_def merge_last_def spread_def)
  from a b c l d e f show ?thesis by blast
qed

theorem thinking_reveal_witness:
  "type (thinking_event ''A. B.'') = Some ''thinking'' \<and>
   thinking_content (thinking_event ''A. B.'') = Some ''A. B.'' \<and> ''A. B.'' \<noteq> [] \<and>
   thinking_writes (fst (handle_chunk [] [] (thinking_event ''A. B.'')))
     = [''A.'', ''A. B.'', ''A. B.''] \<and>
   \<not> is_terminator (hd ''A. B.'') \<and>
   list_all (\<lambda>w. prefix w ''A. B.'')
     (thinking_writes (fst (handle_chunk [] [] (thinking_event ''A. B.'')))) \<and>
   list_all (\<lambda>x. \<not> is_terminator x) ''Hmm'' \<and> sentences ''Hmm'' = [''Hmm''] \<and>
   messages (store (exec (turn_start clock0 ''q'') initial_turn)) \<noteq> [] \<and>
   stored_thinking (state_after (exec (turn_start clock0 ''q'') initial_turn)
     (fst (run (fst (handle_chunk [] [] (thinking_event ''A. B.'')))
        (exec (turn_start clock0 ''q'') initial_turn)))) = Some ''A. B.''"
proof -
  have h: "type (thinking_event ''A. B.'') = Some ''thinking''"
    "thinking_content (thinking_event ''A. B.'') = Some ''A. B.''" "''A. B.'' \<noteq> []"
    by (simp_all add: thinking_event_def)
  have g: "type (thinking_event ''Hmm'') = Some ''thinking''"
    "thinking_content (thinking_event ''Hmm'') = Some ''Hmm''" "''Hmm'' \<noteq> []"
    by (simp_all add: thinking_event_def)
  have nt: "\<not> is_terminator (hd ''A. B.'')" and nt': "\<forall>x\<in>set ''Hmm''. \<not> is_terminator x"
    by (simp_all add: is_terminator_def)
  have ms: "messages (store (exec (turn_start clock0 ''q'') initial_turn)) \<noteq> []"
    by (simp add: exec_turn_start addMessage_def setStreaming_def setError_def)
  have "thinking_writes (fst (handle_chunk [] [] (thinking_event ''A. B.'')))
     = [''A.'', ''A. B.'', ''A. B.'']"
    using thinking_reveal [OF h, of "[]" "[]" initial_turn] by (simp add: sentences_AB)
  moreover have "\<forall>w\<in>set (thinking_writes (fst (handle_chunk [] [] (thinking_event ''A. B.'')))).
      prefix w ''A. B.''"
    using thinking_reveal [OF h, of "[]" "[]" initial_turn] nt by blast
  moreover have "sentences ''Hmm'' = [''Hmm'']"
    using thinking_reveal [OF g, of "[]" "[]" initial_turn] nt' by blast
  moreover have "stored_thinking (state_after (exec (turn_start clock0 ''q'') initial_turn)
     (fst (run (fst (handle_chunk [] [] (thinking_event ''A. B.'')))
        (exec (turn_start clock0 ''q'') initial_turn)))) = Some ''A. B.''"
    using thinking_reveal [OF h, of "[]" "[]" "exec (turn_start clock0 ''q'') initial_turn"] ms
    by blast
  ultimately show ?thesis using h nt nt' ms unfolding list_all_iff by blast
qed

text \<open>
  The claim as stated fails in two ways. For a text that begins with a terminator the match
  skips the leading terminators, and the writes before the last are no prefixes of the
  text. And the write of the full text comes on top of the writes for the segments: for
  \<open>"A. B."\<close> there are three writes for two segments, the last two equal.
\<close>

theorem thinking_reveal_counterexample:
  "thinking_writes (fst (handle_chunk [] [] (thinking_event ''...Hm. Ok.'')))
     = [''Hm.'', ''Hm. Ok.'', ''...Hm. Ok.''] \<and>
   \<not> prefix ''Hm.'' ''...Hm. Ok.'' \<and>
   sentences ''A. B.'' = [''A.'', '' B.''] \<and>
   thinking_writes (fst (handle_chunk [] [] (thinking_event ''A. B.'')))
     = [''A.'', ''A. B.'', ''A. B.''] \<and>
   \<not> sorted_wrt (\<lambda>a b. length a < length b) [''A.'', ''A. B.'', ''A. B.'']"
  by (simp add: handle_chunk_def thinking_event_def truthy_def sentences_def Let_def
      is_terminator_def)

subsection \<open>Content deltas\<close>

text \<open>
  Claim C2. At the end of a turn the content of the last message is the concatenation of
  the fragments of the content deltas that the loop has processed, and so is the
  accumulator, whatever other chunks come between them; in particular, when the chunks are
  content deltas with fragments \<open>f1, ..., fn\<close>, it is the concatenation of these. A delta
  with an empty fragment produces no statement at all: the loop goes on with the next
  chunk in the same state.
\<close>

theorem content_is_concatenation:
  "stored_content (turn_end clk msg cs t0) = Some (concat (fragments cs)) \<and>
   accumulatedContent (turn_end clk msg cs t0) = concat (fragments cs) \<and>
   (list_all2 is_content_delta cs fs \<longrightarrow>
      stored_content (turn_end clk msg cs t0) = Some (concat fs) \<and>
      accumulatedContent (turn_end clk msg cs t0) = concat fs) \<and>
   (\<forall>c. is_content_delta c [] \<longrightarrow>
      handle_chunk accThinking accContent c = ([], False) \<and>
      for_await (c # rest) t = for_await rest t)"
proof -
  let ?t1 = "exec (turn_start clk msg) t0"
  have "stored_content ?t1 = Some (accumulatedContent ?t1)"
    by (simp add: exec_turn_start stored_content_def lastMessage_simps assistantMessage_def)
  from fragments_loop [OF this, of cs]
  have "stored_content (loop_end cs ?t1) = Some (concat (fragments cs))"
    and "accumulatedContent (loop_end cs ?t1) = concat (fragments cs)"
    by (simp_all add: exec_turn_start)
  then have a: "stored_content (turn_end clk msg cs t0) = Some (concat (fragments cs))"
    and b: "accumulatedContent (turn_end clk msg cs t0) = concat (fragments cs)"
    by (simp_all add: turn_end_eq exec_finally_block stored_content_def lastMessage_simps)
  have c: "\<forall>c. is_content_delta c [] \<longrightarrow>
      handle_chunk accThinking accContent c = ([], False) \<and>
      for_await (c # rest) t = for_await rest t"
    by (simp add: is_content_delta_def handle_chunk_def truthy_def state_after_def split_beta
        for_await.simps)
  from a b c show ?thesis by (simp add: fragments_deltas)
qed

theorem content_is_concatenation_witness:
  "list_all2 is_content_delta
     [content_event ''Hi'', content_event [], content_event '' there''] [''Hi'', [], '' there''] \<and>
   stored_content
     (turn_end clock0 ''q'' [content_event ''Hi'', content_event [], content_event '' there'']
        initial_turn) = Some ''Hi there'' \<and>
   fragments [thinking_event ''A. B.'', content_event ''Hi'', content_event '' there'',
     finish_event] = [''Hi'', '' there''] \<and>
   stored_content
     (turn_end clock0 ''q'' [thinking_event ''A. B.'', content_event ''Hi'',
        content_event '' there'', finish_event] initial_turn) = Some ''Hi there'' \<and>
   is_content_delta (content_event []) [] \<and>
   handle_chunk [] ''Hi'' (content_event []) = ([], False)"
proof -
  have h: "list_all2 is_content_delta
     [content_event ''Hi'', content_event [], content_event '' there''] [''Hi'', [], '' there'']"
    and e: "is_content_delta (content_event []) []"
    by (simp_all add: is_content_delta_def content_event_def truthy_flag_def)
  have f: "fragments [thinking_event ''A. B.'', content_event ''Hi'', content_event '' there'',
     finish_event] = [''Hi'', '' there'']"
    by (simp add: events_defs truthy_def truthy_flag_def)
  have "stored_content
     (turn_end clock0 ''q'' [content_event ''Hi'', content_event [], content_event '' there'']
        initial_turn) = Some (concat [''Hi'', [], '' there''])"
    using content_is_concatenation [of clock0 "''q''"
        "[content_event ''Hi'', content_event [], content_event '' there'']" initial_turn
        "[''Hi'', [], '' there'']" "[]" "''Hi''" "[]" initial_turn] h
    by blast
  then have "stored_content
     (turn_end clock0 ''q'' [content_event ''Hi'', content_event [], content_event '' there'']
        initial_turn) = Some ''Hi there''"
    by simp
  moreover have "stored_content
     (turn_end clock0 ''q'' [thinking_event ''A. B.'', content_event ''Hi'',
        content_event '' there'', finish_event] initial_turn)
     = Some (concat (fragments [thinking_event ''A. B.'', content_event ''Hi'',
         content_event '' there'', finish_event]))"
    using content_is_concatenation [of clock0 "''q''"
        "[thinking_event ''A. B.'', content_event ''Hi'', content_event '' there'', finish_event]"
        initial_turn "[]" "[]" "''Hi''" "[]" initial_turn]
    by blast
  then have "stored_content
     (turn_end clock0 ''q'' [thinking_event ''A. B.'', content_event ''Hi'',
        content_event '' there'', finish_event] initial_turn) = Some ''Hi there''"
    by (simp only: f) simp
  moreover have "handle_chunk [] ''Hi'' (content_event []) = ([], False)"
    using content_is_concatenation [of clock0 "''q''" "[]" initial_turn "[]" "[]" "''Hi''"
        "[]" initial_turn] e
    by blast
  ultimately show ?thesis using h e f by blast
qed

subsection \<open>The accumulators and the stored texts from write to write\<close>

text \<open>
  Claim C3, as amended. Take the states right after the calls of \<^verbatim>\<open>updateLastMessage\<close>
  of a turn, in order. The length of the content accumulator never decreases from one of
  them to the next, and the content stored in the last message at each of them is a prefix
  of the content stored at the end of the turn. In a turn with at most one thinking chunk
  that carries text, this text not beginning with \<^verbatim>\<open>.\<close>, \<^verbatim>\<open>!\<close> or \<^verbatim>\<open>?\<close>, the same
  holds of the thinking accumulator and of the stored thinking text.
\<close>

theorem accumulators_grow:
  "(let ws = write_states (fst (handleSend clk msg cs t0));
        fin = turn_end clk msg cs t0
    in sorted_wrt (\<lambda>a b. length (accumulatedContent a) \<le> length (accumulatedContent b)) ws \<and>
       (\<forall>s\<in>set ws. \<exists>x y. stored_content s = Some x \<and> stored_content fin = Some y \<and> prefix x y) \<and>
       (length (filter takes_thinking cs) \<le> 1 \<and>
        (\<forall>c\<in>set cs. takes_thinking c \<longrightarrow> \<not> is_terminator (hd (the (thinking_content c)))) \<longrightarrow>
          sorted_wrt (\<lambda>a b. length (accumulatedThinking a) \<le> length (accumulatedThinking b)) ws \<and>
          (\<forall>s\<in>set ws. \<exists>x y. stored_thinking s = Some x \<and> stored_thinking fin = Some y \<and>
             prefix x y)))"
proof -
  let ?t1 = "exec (turn_start clk msg) t0"
  let ?ws = "write_states (fst (for_await cs ?t1))"
  let ?end = "loop_end cs ?t1"
  let ?fin = "turn_end clk msg cs t0"
  have s1: "synced ?t1" by (rule synced_turn_start)
  have sw: "\<forall>s\<in>set ?ws. synced s" using s1 by (rule synced_writes_loop)
  have "synced ?end" using s1 by (rule synced_loop_end)
  then have fc: "stored_content ?fin = Some (accumulatedContent ?end)"
    and ft: "stored_thinking ?fin = Some (accumulatedThinking ?end)"
    by (simp_all add: turn_end_eq exec_finally_block synced_def stored_content_def
        stored_thinking_def lastMessage_simps)
  have c1: "sorted_wrt (\<lambda>a b. length (accumulatedContent a) \<le> length (accumulatedContent b)) ?ws"
    and c2: "\<forall>s\<in>set ?ws. prefix (accumulatedContent s) (accumulatedContent ?end)"
    using content_chain_loop [of ?t1 cs] transp_content_grows
    by (rule grows_at_writes; simp add: content_grows_def)+
  have c3: "\<forall>s\<in>set ?ws. \<exists>x y. stored_content s = Some x \<and> stored_content ?fin = Some y \<and>
      prefix x y"
    using sw c2 fc by (auto simp: synced_def)
  have th: "sorted_wrt (\<lambda>a b. length (accumulatedThinking a) \<le> length (accumulatedThinking b)) ?ws \<and>
      (\<forall>s\<in>set ?ws. \<exists>x y. stored_thinking s = Some x \<and> stored_thinking ?fin = Some y \<and>
         prefix x y)"
    if h1: "length (filter takes_thinking cs) \<le> 1"
      and h2: "\<forall>c\<in>set cs. takes_thinking c \<longrightarrow> \<not> is_terminator (hd (the (thinking_content c)))"
  proof -
    have "accumulatedThinking ?t1 = []" by (simp add: exec_turn_start)
    with h1 h2 have ch: "successively thinking_grows (?t1 # map snd (fst (for_await cs ?t1)))"
      by (intro thinking_chain_loop)
    have t1: "sorted_wrt (\<lambda>a b. length (accumulatedThinking a) \<le> length (accumulatedThinking b)) ?ws"
      and t2: "\<forall>s\<in>set ?ws. prefix (accumulatedThinking s) (accumulatedThinking ?end)"
      using ch transp_thinking_grows
      by (rule grows_at_writes; simp add: thinking_grows_def)+
    from sw t2 ft have "\<forall>s\<in>set ?ws. \<exists>x y. stored_thinking s = Some x \<and>
        stored_thinking ?fin = Some y \<and> prefix x y"
      by (auto simp: synced_def)
    with t1 show ?thesis by simp
  qed
  from c1 c3 th show ?thesis
    unfolding Let_def write_states_handleSend by blast
qed

theorem accumulators_grow_witness:
  "length (filter takes_thinking
     [thinking_event ''A. B.'', content_event ''Hi'', content_event '' there'', finish_event]) \<le> 1 \<and>
   list_all (\<lambda>c. takes_thinking c \<longrightarrow> \<not> is_terminator (hd (the (thinking_content c))))
     [thinking_event ''A. B.'', content_event ''Hi'', content_event '' there'', finish_event] \<and>
   takes_thinking (thinking_event ''A. B.'') \<and>
   (let ws = write_states (fst (handleSend clock0 ''q''
          [thinking_event ''A. B.'', content_event ''Hi'', content_event '' there'', finish_event]
          initial_turn));
        fin = turn_end clock0 ''q''
          [thinking_event ''A. B.'', content_event ''Hi'', content_event '' there'', finish_event]
          initial_turn
    in map accumulatedContent ws = [[], [], [], ''Hi'', ''Hi there'', ''Hi there''] \<and>
       map accumulatedThinking ws = [''A.'', ''A. B.'', ''A. B.'', ''A. B.'', ''A. B.'', ''A. B.''] \<and>
       sorted_wrt (\<lambda>a b. length (accumulatedContent a) \<le> length (accumulatedContent b)) ws \<and>
       list_all (\<lambda>s. \<exists>x y. stored_content s = Some x \<and> stored_content fin = Some y \<and> prefix x y)
         ws \<and>
       sorted_wrt (\<lambda>a b. length (accumulatedThinking a) \<le> length (accumulatedThinking b)) ws \<and>
       list_all (\<lambda>s. \<exists>x y. stored_thinking s = Some x \<and> stored_thinking fin = Some y \<and>
          prefix x y) ws)"
proof -
  let ?cs = "[thinking_event ''A. B.'', content_event ''Hi'', content_event '' there'', finish_event]"
  let ?ws = "write_states (fst (handleSend clock0 ''q'' ?cs initial_turn))"
  have tt: "takes_thinking (thinking_event ''A. B.'')"
    and nt: "\<not> takes_thinking (content_event ''Hi'')" "\<not> takes_thinking (content_event '' there'')"
      "\<not> takes_thinking finish_event"
    by (simp_all add: takes_thinking_def events_defs truthy_def)
  have h1: "length (filter takes_thinking ?cs) \<le> 1"
    using tt nt by simp
  have h2: "\<forall>c\<in>set ?cs. takes_thinking c \<longrightarrow> \<not> is_terminator (hd (the (thinking_content c)))"
    using nt by (simp add: thinking_event_def is_terminator_def)
  have a: "map accumulatedContent ?ws = [[], [], [], ''Hi'', ''Hi there'', ''Hi there'']"
    and b: "map accumulatedThinking ?ws
      = [''A.'', ''A. B.'', ''A. B.'', ''A. B.'', ''A. B.'', ''A. B.'']"
    by (simp_all add: write_states_handleSend for_await_Cons Let_def handle_chunk_def
        events_defs truthy_def truthy_flag_def sentences_AB write_states_Cons
        write_states_Nil write_states_append zip_states_append exec_Cons exec_Nil
        exec_turn_start)
  from accumulators_grow [of clock0 "''q''" ?cs initial_turn] h1 h2 tt a b
  show ?thesis unfolding Let_def list_all_iff by blast
qed

text \<open>
  The claim as stated covers turns with several thinking chunks. Each thinking chunk starts
  its reveal from the empty text, so with a second one the accumulator shrinks and an
  earlier stored text is no prefix of the last.
\<close>

theorem accumulators_grow_counterexample:
  "map accumulatedThinking
     (write_states (fst (handleSend clock0 ''q''
        [thinking_event ''Ab. Cd.'', thinking_event ''E.''] initial_turn)))
     = [''Ab.'', ''Ab. Cd.'', ''Ab. Cd.'', ''E.'', ''E.''] \<and>
   \<not> sorted_wrt (\<lambda>a b. length (accumulatedThinking a) \<le> length (accumulatedThinking b))
     (write_states (fst (handleSend clock0 ''q''
        [thinking_event ''Ab. Cd.'', thinking_event ''E.''] initial_turn))) \<and>
   map stored_thinking
     (write_states (fst (handleSend clock0 ''q''
        [thinking_event ''Ab. Cd.'', thinking_event ''E.''] initial_turn)))
     = [Some ''Ab.'', Some ''Ab. Cd.'', Some ''Ab. Cd.'', Some ''E.'', Some ''E.''] \<and>
   stored_thinking (turn_end clock0 ''q''
        [thinking_event ''Ab. Cd.'', thinking_event ''E.''] initial_turn) = Some ''E.'' \<and>
   \<not> prefix ''Ab.'' ''E.''"
proof -
  let ?ws = "write_states (fst (handleSend clock0 ''q''
        [thinking_event ''Ab. Cd.'', thinking_event ''E.''] initial_turn))"
  have a: "map accumulatedThinking ?ws = [''Ab.'', ''Ab. Cd.'', ''Ab. Cd.'', ''E.'', ''E.'']"
    by (simp add: write_states_handleSend for_await_Cons Let_def handle_chunk_def
        thinking_event_def truthy_def sentences_AbCd sentences_E write_states_Cons
        write_states_Nil write_states_append zip_states_append exec_Cons exec_Nil)
  have b: "\<not> sorted_wrt (\<lambda>a b. length (accumulatedThinking a) \<le> length (accumulatedThinking b)) ?ws"
  proof
    assume "sorted_wrt (\<lambda>a b. length (accumulatedThinking a) \<le> length (accumulatedThinking b)) ?ws"
    then have "sorted_wrt (\<lambda>x y. length x \<le> length y) (map accumulatedThinking ?ws)"
      by (simp add: sorted_wrt_map)
    then show False unfolding a by simp
  qed
  have c: "map stored_thinking ?ws
     = [Some ''Ab.'', Some ''Ab. Cd.'', Some ''Ab. Cd.'', Some ''E.'', Some ''E.'']"
    by (simp add: write_states_handleSend for_await_Cons Let_def handle_chunk_def
        thinking_event_def truthy_def sentences_AbCd sentences_E write_states_Cons
        write_states_Nil write_states_append zip_states_append exec_Cons exec_Nil
        exec_turn_start stored_thinking_def lastMessage_simps spread_def)
  have d: "stored_thinking (turn_end clock0 ''q''
        [thinking_event ''Ab. Cd.'', thinking_event ''E.''] initial_turn) = Some ''E.''"
    by (simp add: turn_end_eq loop_end_Cons loop_end_Nil Let_def snd_handle_chunk
        exec_handle_chunk thinking_event_def truthy_def truthy_flag_def exec_finally_block
        exec_turn_start stored_thinking_def lastMessage_simps spread_def)
  from a b c d show ?thesis by simp
qed


subsection \<open>The end of the stream\<close>

text \<open>
  Claim C4. A turn whose stream ends without a finish chunk ends in the same state as the
  turn in which a finish chunk follows the same chunks. In that state the content and the
  thinking text of the last message are the two accumulators, \<^verbatim>\<open>handleSend\<close> has
  returned without an exception, and \<^verbatim>\<open>isStreaming\<close> and the two channel flags are off.
\<close>

theorem exhaustion_is_finish:
  "is_finish c \<Longrightarrow>
   turn_end clk msg (cs @ [c]) t0 = turn_end clk msg cs t0 \<and>
   stored_content (turn_end clk msg cs t0) = Some (accumulatedContent (turn_end clk msg cs t0)) \<and>
   stored_thinking (turn_end clk msg cs t0) = Some (accumulatedThinking (turn_end clk msg cs t0)) \<and>
   snd (handleSend clk msg cs t0) = None \<and>
   \<not> isStreaming (store (turn_end clk msg cs t0)) \<and>
   \<not> isThinkingStreaming (turn_end clk msg cs t0) \<and>
   \<not> isContentStreaming (turn_end clk msg cs t0)"
proof -
  assume f: "is_finish c"
  let ?t1 = "exec (turn_start clk msg) t0"
  have s1: "synced ?t1" by (rule synced_turn_start)
  have a: "turn_end clk msg (cs @ [c]) t0 = turn_end clk msg cs t0"
    using finish_loop [OF s1 f, of cs] by (simp add: turn_end_eq)
  have "synced (loop_end cs ?t1)" using s1 by (rule synced_loop_end)
  then have b: "synced (turn_end clk msg cs t0)"
    by (simp add: turn_end_eq exec_finally_block synced_def stored_content_def
        stored_thinking_def lastMessage_simps)
  have d: "snd (handleSend clk msg cs t0) = None"
    by (simp add: handleSend_eq Let_def)
  have e: "\<not> isStreaming (store (turn_end clk msg cs t0)) \<and>
     \<not> isThinkingStreaming (turn_end clk msg cs t0) \<and>
     \<not> isContentStreaming (turn_end clk msg cs t0)"
    by (simp add: turn_end_eq exec_finally_block setStreaming_def)
  from a b d e show ?thesis by (simp add: synced_def)
qed

theorem exhaustion_is_finish_witness:
  "is_finish finish_event \<and>
   turn_end clock0 ''q'' [thinking_event ''A. B.'', content_event ''Hi'', finish_event] initial_turn =
   turn_end clock0 ''q'' [thinking_event ''A. B.'', content_event ''Hi''] initial_turn \<and>
   stored_content (turn_end clock0 ''q'' [thinking_event ''A. B.'', content_event ''Hi''] initial_turn)
     = Some ''Hi'' \<and>
   stored_thinking (turn_end clock0 ''q'' [thinking_event ''A. B.'', content_event ''Hi''] initial_turn)
     = Some ''A. B.''"
proof -
  have f: "is_finish finish_event"
    by (simp add: is_finish_def finish_event_def)
  have a: "accumulatedContent
      (turn_end clock0 ''q'' [thinking_event ''A. B.'', content_event ''Hi''] initial_turn) = ''Hi''"
    and b: "accumulatedThinking
      (turn_end clock0 ''q'' [thinking_event ''A. B.'', content_event ''Hi''] initial_turn) = ''A. B.''"
    by (simp_all add: turn_end_eq loop_end_Cons loop_end_Nil snd_handle_chunk exec_handle_chunk
        exec_finally_block exec_turn_start events_defs truthy_def truthy_flag_def Let_def)
  from exhaustion_is_finish [OF f, of clock0 "''q''"
      "[thinking_event ''A. B.'', content_event ''Hi'']" initial_turn] f a b
  show ?thesis by simp
qed

subsection \<open>Error chunks\<close>

text \<open>
  Claim C5. When an error chunk follows chunks that wrote content or thinking text, the
  messages at the end of the turn are the messages as they stood when the error chunk
  arrived: nothing is rolled back. For the chunks \<open>[content "X", error "boom"]\<close> the last
  message ends with content \<open>"X"\<close> and thinking \<open>""\<close>, the store's \<^verbatim>\<open>error\<close> is
  \<open>"boom"\<close>, and the turn is over: no exception, \<^verbatim>\<open>isStreaming\<close> and both flags off.
\<close>

theorem error_keeps_partial_output:
  "type e = Some ''error'' \<Longrightarrow>
   (let t1 = state_after t0 (fst (run (turn_start clk msg) t0))
    in messages (store (turn_end clk msg (cs @ [e]) t0)) =
       messages (store (state_after t1 (fst (for_await cs t1))))) \<and>
   (let t' = turn_end clk msg [content_event ''X'', error_event ''boom''] t0
    in stored_content t' = Some ''X'' \<and> stored_thinking t' = Some [] \<and>
       error (store t') = Some ''boom'' \<and>
       \<not> isStreaming (store t') \<and> \<not> isThinkingStreaming t' \<and> \<not> isContentStreaming t' \<and>
       snd (handleSend clk msg [content_event ''X'', error_event ''boom''] t0) = None)"
proof -
  assume e: "type e = Some ''error''"
  let ?t1 = "exec (turn_start clk msg) t0"
  let ?t' = "turn_end clk msg [content_event ''X'', error_event ''boom''] t0"
  have "messages (store (turn_end clk msg (cs @ [e]) t0)) = messages (store (loop_end cs ?t1))"
    using error_loop [OF e synced_turn_start, of cs clk msg t0]
    by (simp add: turn_end_eq exec_finally_block setStreaming_def)
  then have a: "let t1 = state_after t0 (fst (run (turn_start clk msg) t0))
    in messages (store (turn_end clk msg (cs @ [e]) t0)) =
       messages (store (state_after t1 (fst (for_await cs t1))))"
    by (simp add: Let_def state_after_run loop_end_def)
  have "loop_end [content_event ''X'', error_event ''boom''] ?t1 =
      ?t1\<lparr>isThinkingStreaming := False, isContentStreaming := True,
          accumulatedContent := accumulatedContent ?t1 @ ''X'',
          store := setError (Some ''boom'')
            (merge_last \<lparr>u_content = Some (accumulatedContent ?t1 @ ''X''), u_thinking = None\<rparr>
               (store ?t1))\<rparr>"
    by (simp add: loop_end_Cons loop_end_Nil Let_def snd_handle_chunk exec_handle_chunk
        content_event_def error_event_def truthy_def truthy_flag_def)
  then have t': "?t' = exec finally_block (?t1
      \<lparr>isThinkingStreaming := False, isContentStreaming := True,
       accumulatedContent := accumulatedContent ?t1 @ ''X'',
       store := setError (Some ''boom'')
         (merge_last \<lparr>u_content = Some (accumulatedContent ?t1 @ ''X''), u_thinking = None\<rparr>
            (store ?t1))\<rparr>)"
    by (simp add: turn_end_eq)
  have b1: "stored_content ?t' = Some ''X''" and b2: "stored_thinking ?t' = Some []"
    by (simp_all add: t' exec_finally_block exec_turn_start stored_content_def
        stored_thinking_def lastMessage_simps spread_def assistantMessage_def)
  have b3: "error (store ?t') = Some ''boom''" and b4: "\<not> isStreaming (store ?t')"
    and b5: "\<not> isThinkingStreaming ?t'" and b6: "\<not> isContentStreaming ?t'"
    by (simp_all add: t' exec_finally_block setError_def setStreaming_def)
  have b7: "snd (handleSend clk msg [content_event ''X'', error_event ''boom''] t0) = None"
    by (simp add: handleSend_eq Let_def)
  from a b1 b2 b3 b4 b5 b6 b7 show ?thesis by (simp add: Let_def)
qed

theorem error_keeps_partial_output_witness:
  "type (error_event ''boom'') = Some ''error'' \<and>
   messages (store (turn_end clock0 ''q'' [content_event ''X'', error_event ''boom''] initial_turn)) =
   messages (store (turn_end clock0 ''q'' [content_event ''X''] initial_turn)) \<and>
   error (store (turn_end clock0 ''q'' [content_event ''X'', error_event ''boom''] initial_turn))
     = Some ''boom''"
proof -
  have e: "type (error_event ''boom'') = Some ''error''"
    by (simp add: error_event_def)
  have x: "state_after (state_after initial_turn (fst (run (turn_start clock0 ''q'') initial_turn)))
        (fst (for_await [content_event ''X'']
          (state_after initial_turn (fst (run (turn_start clock0 ''q'') initial_turn)))))
      = loop_end [content_event ''X''] (exec (turn_start clock0 ''q'') initial_turn)"
    by (simp only: state_after_run loop_end_def)
  have y: "messages (store (turn_end clock0 ''q'' [content_event ''X''] initial_turn)) =
      messages (store (loop_end [content_event ''X''] (exec (turn_start clock0 ''q'') initial_turn)))"
    by (simp add: turn_end_eq exec_finally_block setStreaming_def)
  have "messages (store (turn_end clock0 ''q'' ([content_event ''X''] @ [error_event ''boom''])
          initial_turn)) =
        messages (store (turn_end clock0 ''q'' [content_event ''X''] initial_turn))"
    and "error (store (turn_end clock0 ''q'' [content_event ''X'', error_event ''boom'']
          initial_turn)) = Some ''boom''"
    using error_keeps_partial_output [OF e, of initial_turn clock0 "''q''" "[content_event ''X'']"]
    by (simp_all only: Let_def x y)
  with e show ?thesis by simp
qed

text \<open>
  Claim C8, as amended. An error chunk (type \<open>error\<close>, no \<open>done\<close> flag set) with a
  non-empty message hands exactly that message to \<^verbatim>\<open>setError\<close>; with an empty or absent
  message it hands over the text \<open>Unknown error\<close>.
\<close>

theorem error_chunk_message:
  "type c = Some ''error'' \<Longrightarrow> \<not> truthy_flag (done_flag c) \<Longrightarrow>
   (\<forall>m. chunk c = Some m \<and> m \<noteq> [] \<longrightarrow>
      handle_chunk accThinking accContent c = ([SetError (Some m)], True) \<and>
      error (store (state_after t (fst (run (fst (handle_chunk accThinking accContent c)) t))))
        = Some m) \<and>
   (chunk c = None \<or> chunk c = Some [] \<longrightarrow>
      handle_chunk accThinking accContent c = ([SetError (Some ''Unknown error'')], True) \<and>
      error (store (state_after t (fst (run (fst (handle_chunk accThinking accContent c)) t))))
        = Some ''Unknown error'')"
  by (auto simp: handle_chunk_def truthy_def setError_def state_after_def call_effect)

theorem error_chunk_message_witness:
  "type (error_event ''boom'') = Some ''error'' \<and>
   \<not> truthy_flag (done_flag (error_event ''boom'')) \<and>
   chunk (error_event ''boom'') = Some ''boom'' \<and> ''boom'' \<noteq> [] \<and>
   handle_chunk [] ''X'' (error_event ''boom'') = ([SetError (Some ''boom'')], True) \<and>
   error (store (state_after initial_turn
     (fst (run (fst (handle_chunk [] ''X'' (error_event ''boom''))) initial_turn)))) = Some ''boom'' \<and>
   type (error_event []) = Some ''error'' \<and> \<not> truthy_flag (done_flag (error_event [])) \<and>
   chunk (error_event []) = Some [] \<and>
   handle_chunk [] ''X'' (error_event []) = ([SetError (Some ''Unknown error'')], True)"
proof -
  have h: "type (error_event ''boom'') = Some ''error''"
    "\<not> truthy_flag (done_flag (error_event ''boom''))"
    and m: "chunk (error_event ''boom'') = Some ''boom''"
    by (simp_all add: error_event_def truthy_flag_def)
  have ne: "''boom'' \<noteq> []" by simp
  from error_chunk_message [OF h, of "[]" "''X''" initial_turn] m ne
  have "handle_chunk [] ''X'' (error_event ''boom'') = ([SetError (Some ''boom'')], True) \<and>
   error (store (state_after initial_turn
     (fst (run (fst (handle_chunk [] ''X'' (error_event ''boom''))) initial_turn)))) = Some ''boom''"
    by blast
  moreover have g: "type (error_event []) = Some ''error''"
    "\<not> truthy_flag (done_flag (error_event []))"
    and n: "chunk (error_event []) = Some []"
    by (simp_all add: error_event_def truthy_flag_def)
  moreover from error_chunk_message [OF g, of "[]" "''X''" initial_turn] n
  have "handle_chunk [] ''X'' (error_event []) = ([SetError (Some ''Unknown error'')], True)"
    by blast
  ultimately show ?thesis using h m ne by blast
qed

text \<open>
  The claim as stated includes the empty message, and there the text handed over is not
  the message.
\<close>

theorem error_chunk_message_counterexample:
  "error (store (state_after initial_turn
     (fst (run (fst (handle_chunk [] [] (error_event []))) initial_turn)))) = Some ''Unknown error'' \<and>
   error (store (state_after initial_turn
     (fst (run (fst (handle_chunk [] [] (error_event []))) initial_turn)))) \<noteq> Some []"
  by (simp add: handle_chunk_def error_event_def truthy_def truthy_flag_def setError_def
      state_after_def call_effect)

subsection \<open>Clearing the store during a turn\<close>

text \<open>
  Claim C6. Let \<^verbatim>\<open>clearMessages\<close> run while a turn is suspended, with \<open>acts\<close> the
  statements of the current chunk still to be executed and \<open>cs\<close> the chunks still to come.
  Then the rest of the turn (\<open>acts\<close>, the loop over \<open>cs\<close>, the \<^verbatim>\<open>finally\<close> block) raises no
  exception, the store has no messages after any of its statements, and every
  \<^verbatim>\<open>updateLastMessage\<close> on the cleared store returns the store unchanged.
\<close>

theorem clear_discards_rest_of_turn:
  "suffix acts (fst (handle_chunk accThinking accContent c)) \<Longrightarrow>
   (let t1 = t\<lparr>store := clearMessages (store t)\<rparr>;
        tr1 = fst (run acts t1);
        t2 = state_after t1 tr1;
        tr2 = fst (for_await cs t2);
        t3 = state_after t2 tr2;
        tr3 = fst (run finally_block t3)
    in snd (run acts t1) = None \<and> snd (for_await cs t2) = None \<and>
       snd (run finally_block t3) = None \<and>
       (\<forall>(a, s)\<in>set (tr1 @ tr2 @ tr3). messages (store s) = []) \<and>
       (\<forall>upd. updateLastMessage upd (store t1) = Inr (store t1)))"
proof -
  assume sf: "suffix acts (fst (handle_chunk accThinking accContent c))"
  let ?t1 = "t\<lparr>store := clearMessages (store t)\<rparr>"
  let ?t2 = "exec acts ?t1"
  let ?t3 = "loop_end cs ?t2"
  have e1: "messages (store ?t1) = []" by (simp add: clearMessages_def)
  have na: "\<forall>m. AddMessage m \<notin> set acts"
    using sf handle_chunk_no_AddMessage [of _ accThinking accContent c]
    by (meson set_mono_suffix subsetD)
  have s1: "(\<forall>s\<in>set (states acts ?t1). messages (store s) = []) \<and> messages (store ?t2) = []"
    using na e1 by (rule states_keep_empty)
  then have s2: "(\<forall>s\<in>snd ` set (fst (for_await cs ?t2)). messages (store s) = []) \<and>
      messages (store ?t3) = []"
    by (intro for_await_keeps_empty) (rule conjunct2)
  then have s3: "\<forall>s\<in>set (states finally_block ?t3). messages (store s) = []"
    by (simp add: finally_block_def setStreaming_def)
  have all: "\<forall>(a, s)\<in>set (zip acts (states acts ?t1) @ fst (for_await cs ?t2)
        @ zip finally_block (states finally_block ?t3)). messages (store s) = []"
  proof (clarify)
    fix a s
    assume "(a, s) \<in> set (zip acts (states acts ?t1) @ fst (for_await cs ?t2)
        @ zip finally_block (states finally_block ?t3))"
    then have "s \<in> snd ` set (zip acts (states acts ?t1)) \<or>
       s \<in> snd ` set (fst (for_await cs ?t2)) \<or>
       s \<in> snd ` set (zip finally_block (states finally_block ?t3))"
      by force
    then show "messages (store s) = []" using s1 s2 s3 by (auto simp: snd_zip_states)
  qed
  have u: "\<forall>upd. updateLastMessage upd (store ?t1) = Inr (store ?t1)"
    using e1 by (simp add: updateLastMessage_def)
  show ?thesis
    unfolding Let_def run_zip fst_conv snd_conv state_after_zip
    using all u for_await_no_throw [of cs ?t2]
    by (simp add: loop_end_def)
qed


theorem clear_discards_rest_of_turn_witness:
  "suffix [Assign_accumulatedThinking ''A. B.'',
           UpdateLastMessage \<lparr>u_content = None, u_thinking = Some ''A. B.''\<rparr>]
     (fst (handle_chunk [] [] (thinking_event ''A. B.''))) \<and>
   (let t1 = (exec (turn_start clock0 ''q'') initial_turn)
               \<lparr>store := clearMessages (store (exec (turn_start clock0 ''q'') initial_turn))\<rparr>;
        tr1 = fst (run [Assign_accumulatedThinking ''A. B.'',
                 UpdateLastMessage \<lparr>u_content = None, u_thinking = Some ''A. B.''\<rparr>] t1);
        t2 = state_after t1 tr1;
        tr2 = fst (for_await [content_event ''Hi'', finish_event] t2);
        t3 = state_after t2 tr2;
        tr3 = fst (run finally_block t3)
    in map fst (tr1 @ tr2 @ tr3) =
         [Assign_accumulatedThinking ''A. B.'',
          UpdateLastMessage \<lparr>u_content = None, u_thinking = Some ''A. B.''\<rparr>,
          SetIsThinkingStreaming False, SetIsContentStreaming True,
          Assign_accumulatedContent ''Hi'',
          UpdateLastMessage \<lparr>u_content = Some ''Hi'', u_thinking = None\<rparr>,
          SetIsThinkingStreaming False, SetIsContentStreaming False,
          UpdateLastMessage \<lparr>u_content = Some ''Hi'', u_thinking = Some ''A. B.''\<rparr>,
          SetStreaming False, SetIsThinkingStreaming False, SetIsContentStreaming False] \<and>
       list_all (\<lambda>(a, s). messages (store s) = []) (tr1 @ tr2 @ tr3))"
proof -
  let ?acts = "[Assign_accumulatedThinking ''A. B.'',
           UpdateLastMessage \<lparr>u_content = None, u_thinking = Some ''A. B.''\<rparr>]"
  let ?t = "exec (turn_start clock0 ''q'') initial_turn"
  let ?t1 = "?t\<lparr>store := clearMessages (store ?t)\<rparr>"
  let ?cs = "[content_event ''Hi'', finish_event]"
  have "fst (handle_chunk [] [] (thinking_event ''A. B.'')) =
      [SetIsThinkingStreaming True, Assign_accumulatedThinking ''A.'',
       UpdateLastMessage \<lparr>u_content = None, u_thinking = Some ''A.''\<rparr>, Delay 50,
       Assign_accumulatedThinking ''A. B.'',
       UpdateLastMessage \<lparr>u_content = None, u_thinking = Some ''A. B.''\<rparr>, Delay 50] @ ?acts"
    by (simp add: handle_chunk_def thinking_event_def truthy_def sentences_AB Let_def)
  then have h: "suffix ?acts (fst (handle_chunk [] [] (thinking_event ''A. B.'')))"
    by (simp only: suffix_def) blast
  note inst = clear_discards_rest_of_turn [OF h, of ?t ?cs, unfolded Let_def]
  have acts: "map fst (fst (run ?acts ?t1) @ fst (for_await ?cs (state_after ?t1 (fst (run ?acts ?t1))))
       @ fst (run finally_block (state_after (state_after ?t1 (fst (run ?acts ?t1)))
           (fst (for_await ?cs (state_after ?t1 (fst (run ?acts ?t1)))))))) =
         [Assign_accumulatedThinking ''A. B.'',
          UpdateLastMessage \<lparr>u_content = None, u_thinking = Some ''A. B.''\<rparr>,
          SetIsThinkingStreaming False, SetIsContentStreaming True,
          Assign_accumulatedContent ''Hi'',
          UpdateLastMessage \<lparr>u_content = Some ''Hi'', u_thinking = None\<rparr>,
          SetIsThinkingStreaming False, SetIsContentStreaming False,
          UpdateLastMessage \<lparr>u_content = Some ''Hi'', u_thinking = Some ''A. B.''\<rparr>,
          SetStreaming False, SetIsThinkingStreaming False, SetIsContentStreaming False]"
    by (simp add: run_zip state_after_zip for_await_Cons Let_def map_fst_zip_states
        handle_chunk_def events_defs truthy_def truthy_flag_def exec_Cons exec_Nil exec_turn_start
        finally_block_def del: for_await.simps(2) states.simps)
  from h inst acts show ?thesis unfolding Let_def list_all_iff by blast
qed

subsection \<open>The store\<close>

text \<open>
  Claim C7, as amended. \<^verbatim>\<open>updateLastMessage\<close> on a store without messages returns
  normally and leaves the store as it was.
\<close>

theorem updateLastMessage_empty_store:
  "messages state = [] \<Longrightarrow> updateLastMessage upd state = Inr state"
  by (simp add: updateLastMessage_def)

theorem updateLastMessage_empty_store_witness:
  "messages initial_state = [] \<and>
   updateLastMessage \<lparr>u_content = Some ''X'', u_thinking = None\<rparr> initial_state = Inr initial_state"
  using updateLastMessage_empty_store [of initial_state "\<lparr>u_content = Some ''X'', u_thinking = None\<rparr>"]
  by (simp add: initial_state_def)

text \<open>The claim as stated wants the call to end in an error; it does not.\<close>

theorem updateLastMessage_empty_store_counterexample:
  "\<not> isl (updateLastMessage \<lparr>u_content = Some ''X'', u_thinking = None\<rparr> initial_state)"
  by (simp add: updateLastMessage_def initial_state_def)

subsection \<open>The start of a turn\<close>

text \<open>
  Claim C9. The statements before the stream is opened append the user message, with the
  submitted text as content, and then the assistant placeholder, with empty content and
  empty thinking text; the list of messages after each of the eight statements shows no
  other change. These statements are the beginning of every run of \<^verbatim>\<open>handleSend\<close>,
  whatever the stream delivers.
\<close>

theorem turn_start_two_messages:
  "map (\<lambda>(a, t). messages (store t)) (fst (run (turn_start clk msg) t0)) =
     (messages (store t0) @ [userMessage clk msg])
     # replicate 7 (messages (store t0) @ [userMessage clk msg, assistantMessage clk])
   \<and> role (userMessage clk msg) = user \<and> content (userMessage clk msg) = msg
   \<and> role (assistantMessage clk) = assistant
   \<and> content (assistantMessage clk) = [] \<and> thinking (assistantMessage clk) = Some []
   \<and> prefix (fst (run (turn_start clk msg) t0)) (fst (handleSend clk msg chunks t0))"
  by (simp add: turn_start_def handleSend_eq Let_def userMessage_def assistantMessage_def
      addMessage_def setStreaming_def setError_def numeral_eq_Suc call_effect)

subsection \<open>Thinking chunks without text\<close>

text \<open>
  Claim C10. A thinking chunk with the empty string as text (and no \<open>done\<close> flag set)
  produces no statement: no write, no flag change, no delay; the loop goes on with the
  next chunk in the same state.
\<close>

theorem empty_thinking_ignored:
  "type c = Some ''thinking'' \<Longrightarrow> thinking_content c = Some [] \<Longrightarrow>
   \<not> truthy_flag (done_flag c) \<Longrightarrow>
   handle_chunk accThinking accContent c = ([], False) \<and>
   for_await (c # cs) t = for_await cs t"
  by (simp add: handle_chunk_def truthy_def state_after_def split_beta for_await.simps)

theorem empty_thinking_ignored_witness:
  "type (thinking_event []) = Some ''thinking'' \<and>
   thinking_content (thinking_event []) = Some [] \<and>
   \<not> truthy_flag (done_flag (thinking_event [])) \<and>
   handle_chunk ''A.'' ''X'' (thinking_event []) = ([], False) \<and>
   for_await [thinking_event [], finish_event] initial_turn = for_await [finish_event] initial_turn"
proof -
  have h: "type (thinking_event []) = Some ''thinking''"
    "thinking_content (thinking_event []) = Some []"
    "\<not> truthy_flag (done_flag (thinking_event []))"
    by (simp_all add: thinking_event_def truthy_flag_def)
  from empty_thinking_ignored [OF h, of "''A.''" "''X''" "[finish_event]" initial_turn] h
  show ?thesis by simp
qed

end
